theory Spec2Isabelle
  imports Complex_Main "HOL-Library.Word" "HOL-Library.Log_Nat"
begin

text \<open>
  A model of the limit-order matching engine: the order and trade records, the price
  levels and the order book with its matching loops, the part of the engine worker that
  handles one request, the single-producer single-consumer queue, and the profit of an
  arbitrage opportunity between the two market-data feeds. State is passed explicitly: an
  operation takes the book (the engine, the queue) and returns its result with the new
  one. The statements about them follow the definitions.
\<close>

section \<open>Orders and trades (core/order.hpp)\<close>

datatype side = BUY | SELL

datatype order_type = MARKET | LIMIT | STOP | STOP_LIMIT

datatype order_status = NEW | PARTIALLY_FILLED | FILLED | CANCELLED | REJECTED

datatype time_in_force = DAY | GTC | IOC | FOK | GTD

text \<open>
  \<open>struct Order\<close>. The unsigned fields are machine words. \<open>price\<close> is an \<open>int64_t\<close>; the
  book only copies and compares prices, it never computes with them, so the model
  takes them in \<open>int\<close>. The padding bytes are left out.
\<close>

record order =
  order_id :: "64 word"
  symbol_id :: "64 word"
  price :: int
  quantity :: "32 word"
  executed_quantity :: "32 word"
  timestamp_ns :: "64 word"
  client_id :: "64 word"
  sequence_number :: "32 word"
  side :: side
  otype :: order_type
  status :: order_status
  tif :: time_in_force

text \<open>
  The constructor for limit orders. It reads the steady clock for \<open>timestamp_ns\<close>; the
  reading is the last argument here.
\<close>

definition Order :: "64 word \<Rightarrow> 64 word \<Rightarrow> int \<Rightarrow> 32 word \<Rightarrow> side \<Rightarrow> 64 word \<Rightarrow> 64 word \<Rightarrow> order" where
  "Order oid symbol px qty s client now =
     \<lparr>order_id = oid, symbol_id = symbol, price = px, quantity = qty,
      executed_quantity = 0, timestamp_ns = now, client_id = client,
      sequence_number = 0, side = s, otype = LIMIT, status = NEW, tif = DAY\<rparr>"

text \<open>
  \<open>struct Trade\<close>, without its padding and without \<open>timestamp_ns\<close> (a clock reading taken
  in the constructor that nothing in the book or the engine reads back).
\<close>

record trade =
  trade_id :: "64 word"
  buy_order_id :: "64 word"
  sell_order_id :: "64 word"
  trade_symbol_id :: "64 word"
  trade_price :: int
  trade_quantity :: "32 word"

text \<open>\<open>Trade(id, buy, sell, exec_price, qty)\<close>.\<close>

definition Trade :: "64 word \<Rightarrow> order \<Rightarrow> order \<Rightarrow> int \<Rightarrow> 32 word \<Rightarrow> trade" where
  "Trade tid buy sell exec_price qty =
     \<lparr>trade_id = tid, buy_order_id = order_id buy, sell_order_id = order_id sell,
      trade_symbol_id = symbol_id buy, trade_price = exec_price, trade_quantity = qty\<rparr>"


section \<open>Price levels (PriceLevelImpl in core/orderbook.cpp)\<close>

text \<open>
  \<open>orders_\<close> is a \<open>std::queue\<close>: the front of the queue is the head of the list, \<open>push\<close>
  appends. \<open>total_volume_\<close> is a \<open>uint32_t\<close> and wraps.

  The queue holds \<open>shared_ptr<Order>\<close>; the same object is also reachable from the book's
  \<open>order_map_\<close>. The model keeps a copy of the order in both places, and a write through
  the pointer (the book's matching loops lower \<open>quantity\<close> of the front order) is written
  to both copies there.
\<close>

record price_level =
  lvl_price :: int
  lvl_orders :: "order list"
  lvl_volume :: "32 word"

definition PriceLevelImpl :: "int \<Rightarrow> price_level" where
  "PriceLevelImpl px = \<lparr>lvl_price = px, lvl_orders = [], lvl_volume = 0\<rparr>"

text \<open>
  \<open>PriceLevelImpl::add_order\<close>. Its \<open>assert(order->price == price_)\<close> is not a branch of the
  model: the only caller, \<open>add_to_book\<close>, takes the level stored under \<open>order->price\<close> or
  constructs it with that price.
\<close>

definition level_add_order :: "price_level \<Rightarrow> order \<Rightarrow> price_level" where
  "level_add_order l ord =
     l\<lparr>lvl_orders := lvl_orders l @ [ord], lvl_volume := lvl_volume l + quantity ord\<rparr>"

definition peek_front :: "price_level \<Rightarrow> order option" where
  "peek_front l = (case lvl_orders l of [] \<Rightarrow> None | ord # _ \<Rightarrow> Some ord)"

definition remove_front_after_fill :: "price_level \<Rightarrow> 32 word \<Rightarrow> price_level" where
  "remove_front_after_fill l filled_quantity =
     (if lvl_orders l \<noteq> []
      then l\<lparr>lvl_volume := lvl_volume l - filled_quantity, lvl_orders := tl (lvl_orders l)\<rparr>
      else l)"

definition update_volume_after_partial_fill :: "price_level \<Rightarrow> 32 word \<Rightarrow> price_level" where
  "update_volume_after_partial_fill l filled_quantity =
     l\<lparr>lvl_volume := lvl_volume l - filled_quantity\<rparr>"

definition level_empty :: "price_level \<Rightarrow> bool" where
  "level_empty l = (lvl_orders l = [])"

text \<open>
  The \<open>while\<close> loop of \<open>remove_order\<close>: the rest of \<open>orders_\<close>, then \<open>temp_queue\<close>,
  \<open>total_volume_\<close> and \<open>found\<close>.
\<close>

fun remove_order_loop ::
  "64 word \<Rightarrow> order list \<Rightarrow> order list \<Rightarrow> 32 word \<Rightarrow> bool \<Rightarrow> order list \<times> 32 word \<times> bool" where
  "remove_order_loop oid [] temp_queue vol found = (temp_queue, vol, found)"
| "remove_order_loop oid (ord # rest) temp_queue vol found =
     (if order_id ord = oid
      then remove_order_loop oid rest temp_queue (vol - quantity ord) True
      else remove_order_loop oid rest (temp_queue @ [ord]) vol found)"

definition remove_order :: "price_level \<Rightarrow> 64 word \<Rightarrow> bool \<times> price_level" where
  "remove_order l oid =
     (case remove_order_loop oid (lvl_orders l) [] (lvl_volume l) False of
        (temp_queue, vol, found) \<Rightarrow> (found, l\<lparr>lvl_orders := temp_queue, lvl_volume := vol\<rparr>))"

text \<open>
  The write \<open>o->quantity -= q\<close> through the pointer returned by \<open>peek_front\<close>, as it shows
  in the queue.
\<close>

definition set_front_quantity :: "price_level \<Rightarrow> 32 word \<Rightarrow> price_level" where
  "set_front_quantity l q =
     (case lvl_orders l of
        [] \<Rightarrow> l
      | ord # rest \<Rightarrow> l\<lparr>lvl_orders := ord\<lparr>quantity := q\<rparr> # rest\<rparr>)"


section \<open>The price-ordered maps\<close>

text \<open>
  A \<open>std::map<int64_t, V, Compare>\<close> is an association list in iteration order:
  \<open>begin()\<close> is the head. \<open>precedes\<close> is the comparator (\<open>std::greater\<close> for the bids,
  \<open>std::less\<close> for the asks); two keys are the same key when neither precedes the other.
\<close>

type_synonym 'v price_map = "(int \<times> 'v) list"

fun map_insert :: "(int \<Rightarrow> int \<Rightarrow> bool) \<Rightarrow> int \<Rightarrow> 'v \<Rightarrow> 'v price_map \<Rightarrow> 'v price_map" where
  "map_insert precedes k v [] = [(k, v)]"
| "map_insert precedes k v ((k', v') # kvs) =
     (if precedes k k' then (k, v) # (k', v') # kvs
      else if precedes k' k then (k', v') # map_insert precedes k v kvs
      else (k, v) # kvs)"

definition map_find :: "int \<Rightarrow> 'v price_map \<Rightarrow> 'v option" where
  "map_find k kvs = map_of kvs k"

definition map_erase :: "int \<Rightarrow> 'v price_map \<Rightarrow> 'v price_map" where
  "map_erase k kvs = filter (\<lambda>kv. fst kv \<noteq> k) kvs"

text \<open>A write to the value an iterator or reference points at.\<close>

definition map_assign :: "int \<Rightarrow> 'v \<Rightarrow> 'v price_map \<Rightarrow> 'v price_map" where
  "map_assign k v kvs = map (\<lambda>kv. if fst kv = k then (k, v) else kv) kvs"

text \<open>What \<open>std::map\<close> guarantees of its own: the keys are strictly ordered by the comparator.\<close>

definition ordered_map :: "(int \<Rightarrow> int \<Rightarrow> bool) \<Rightarrow> 'v price_map \<Rightarrow> bool" where
  "ordered_map precedes kvs = sorted_wrt precedes (map fst kvs)"


section \<open>The order book (OrderBookImpl in core/orderbook.cpp)\<close>

record book =
  book_symbol_id :: "64 word"
  buy_levels :: "price_level price_map"
  sell_levels :: "price_level price_map"
  order_map :: "64 word \<rightharpoonup> order"
  next_trade_id :: "64 word"

definition create_order_book :: "64 word \<Rightarrow> book" where
  "create_order_book symbol =
     \<lparr>book_symbol_id = symbol, buy_levels = [], sell_levels = [], order_map = Map.empty,
      next_trade_id = 1\<rparr>"

definition generate_trade :: "book \<Rightarrow> order \<Rightarrow> order \<Rightarrow> 32 word \<Rightarrow> int \<Rightarrow> trade \<times> book" where
  "generate_trade b aggressive_order passive_order qty px =
     (Trade (next_trade_id b) aggressive_order passive_order px qty,
      b\<lparr>next_trade_id := next_trade_id b + 1\<rparr>)"

text \<open>
  One pass through the body of the \<open>while\<close> loop of \<open>match_buy_order\<close>: \<open>None\<close> when the
  loop ends here (its condition is false, or the \<open>break\<close>), otherwise the book, the
  incoming order and \<open>trades\<close> after the pass. The incoming order is the object behind
  \<open>order_ptr\<close>, which the loop changes; it is returned changed. The write to the
  resting order's \<open>quantity\<close> matters when the order stays: it goes to the copy in the
  level (\<open>set_front_quantity\<close>) and to the copy in \<open>order_map\<close>.
\<close>

definition match_buy_iter ::
  "book \<Rightarrow> order \<Rightarrow> trade list \<Rightarrow> (book \<times> order \<times> trade list) option" where
  "match_buy_iter b buy_order trades =
     (if \<not> 0 < quantity buy_order then None
      else case sell_levels b of
        [] \<Rightarrow> None
      | (best_ask_price, best_ask_level) # rest \<Rightarrow>
          if price buy_order < best_ask_price then None
          else (case peek_front best_ask_level of
            None \<Rightarrow> Some (b\<lparr>sell_levels := rest\<rparr>, buy_order, trades)
          | Some sell_order \<Rightarrow>
              let match_quantity = min (quantity buy_order) (quantity sell_order);
                  (t, b1) = generate_trade b buy_order sell_order match_quantity best_ask_price;
                  buy_order' = buy_order\<lparr>quantity := quantity buy_order - match_quantity\<rparr>;
                  sell_order' = sell_order\<lparr>quantity := quantity sell_order - match_quantity\<rparr>
              in if quantity sell_order' = 0
                 then
                   let b2 = b1\<lparr>order_map := (order_map b1)(order_id sell_order := None)\<rparr>;
                       level' = remove_front_after_fill best_ask_level match_quantity
                   in if level_empty level'
                      then Some (b2\<lparr>sell_levels := rest\<rparr>, buy_order', trades @ [t])
                      else Some (b2\<lparr>sell_levels := (best_ask_price, level') # rest\<rparr>,
                                 buy_order', trades @ [t])
                 else
                   let b2 = b1\<lparr>order_map := (order_map b1)(order_id sell_order \<mapsto> sell_order')\<rparr>;
                       level' = update_volume_after_partial_fill
                                  (set_front_quantity best_ask_level (quantity sell_order'))
                                  match_quantity
                   in Some (b2\<lparr>sell_levels := (best_ask_price, level') # rest\<rparr>,
                            buy_order', trades @ [t])))"

text \<open>The same for \<open>match_sell_order\<close>, against the bids.\<close>

definition match_sell_iter ::
  "book \<Rightarrow> order \<Rightarrow> trade list \<Rightarrow> (book \<times> order \<times> trade list) option" where
  "match_sell_iter b sell_order trades =
     (if \<not> 0 < quantity sell_order then None
      else case buy_levels b of
        [] \<Rightarrow> None
      | (best_bid_price, best_bid_level) # rest \<Rightarrow>
          if price sell_order > best_bid_price then None
          else (case peek_front best_bid_level of
            None \<Rightarrow> Some (b\<lparr>buy_levels := rest\<rparr>, sell_order, trades)
          | Some buy_order \<Rightarrow>
              let match_quantity = min (quantity sell_order) (quantity buy_order);
                  (t, b1) = generate_trade b sell_order buy_order match_quantity best_bid_price;
                  sell_order' = sell_order\<lparr>quantity := quantity sell_order - match_quantity\<rparr>;
                  buy_order' = buy_order\<lparr>quantity := quantity buy_order - match_quantity\<rparr>
              in if quantity buy_order' = 0
                 then
                   let b2 = b1\<lparr>order_map := (order_map b1)(order_id buy_order := None)\<rparr>;
                       level' = remove_front_after_fill best_bid_level match_quantity
                   in if level_empty level'
                      then Some (b2\<lparr>buy_levels := rest\<rparr>, sell_order', trades @ [t])
                      else Some (b2\<lparr>buy_levels := (best_bid_price, level') # rest\<rparr>,
                                 sell_order', trades @ [t])
                 else
                   let b2 = b1\<lparr>order_map := (order_map b1)(order_id buy_order \<mapsto> buy_order')\<rparr>;
                       level' = update_volume_after_partial_fill
                                  (set_front_quantity best_bid_level (quantity buy_order'))
                                  match_quantity
                   in Some (b2\<lparr>buy_levels := (best_bid_price, level') # rest\<rparr>,
                            sell_order', trades @ [t])))"

text \<open>
  The loops end: a pass that does not stop removes a level or an order from the side it
  walks, or leaves the incoming order with nothing to fill.
\<close>

definition levels_size :: "price_level price_map \<Rightarrow> nat" where
  "levels_size kvs = sum_list (map (\<lambda>kv. Suc (length (lvl_orders (snd kv)))) kvs)"

definition match_measure :: "price_level price_map \<Rightarrow> order \<Rightarrow> nat" where
  "match_measure kvs ord = 2 * levels_size kvs + (if quantity ord = 0 then 0 else 1)"

function match_buy_order :: "book \<Rightarrow> order \<Rightarrow> trade list \<Rightarrow> book \<times> order \<times> trade list" where
  "match_buy_order b buy_order trades =
     (case match_buy_iter b buy_order trades of
        None \<Rightarrow> (b, buy_order, trades)
      | Some (b', buy_order', trades') \<Rightarrow> match_buy_order b' buy_order' trades')"
  by pat_completeness auto
termination
proof (relation "measure (\<lambda>(b, ord, ts). match_measure (sell_levels b) ord)")
  show "wf (measure (\<lambda>(b, ord, ts). match_measure (sell_levels b) ord))"
    by simp
next
  fix b buy_order trades x b' y buy_order' trades'
  assume "match_buy_iter b buy_order trades = Some x" "(b', y) = x" "(buy_order', trades') = y"
  then have "match_buy_iter b buy_order trades = Some (b', buy_order', trades')"
    by simp
  then have "match_measure (sell_levels b') buy_order' < match_measure (sell_levels b) buy_order"
    unfolding match_buy_iter_def generate_trade_def peek_front_def
    by (auto simp: Let_def match_measure_def levels_size_def level_empty_def min_def
          remove_front_after_fill_def update_volume_after_partial_fill_def
          set_front_quantity_def
          split: if_splits list.splits prod.splits)
  then show "((b', buy_order', trades'), (b, buy_order, trades))
               \<in> measure (\<lambda>(b, ord, ts). match_measure (sell_levels b) ord)"
    by simp
qed

function match_sell_order :: "book \<Rightarrow> order \<Rightarrow> trade list \<Rightarrow> book \<times> order \<times> trade list" where
  "match_sell_order b sell_order trades =
     (case match_sell_iter b sell_order trades of
        None \<Rightarrow> (b, sell_order, trades)
      | Some (b', sell_order', trades') \<Rightarrow> match_sell_order b' sell_order' trades')"
  by pat_completeness auto
termination
proof (relation "measure (\<lambda>(b, ord, ts). match_measure (buy_levels b) ord)")
  show "wf (measure (\<lambda>(b, ord, ts). match_measure (buy_levels b) ord))"
    by simp
next
  fix b sell_order trades x b' y sell_order' trades'
  assume "match_sell_iter b sell_order trades = Some x" "(b', y) = x" "(sell_order', trades') = y"
  then have "match_sell_iter b sell_order trades = Some (b', sell_order', trades')"
    by simp
  then have "match_measure (buy_levels b') sell_order' < match_measure (buy_levels b) sell_order"
    unfolding match_sell_iter_def generate_trade_def peek_front_def
    by (auto simp: Let_def match_measure_def levels_size_def level_empty_def min_def
          remove_front_after_fill_def update_volume_after_partial_fill_def
          set_front_quantity_def
          split: if_splits list.splits prod.splits)
  then show "((b', sell_order', trades'), (b, sell_order, trades))
               \<in> measure (\<lambda>(b, ord, ts). match_measure (buy_levels b) ord)"
    by simp
qed

text \<open>
  \<open>add_to_book\<close>. \<open>levels[price]\<close> creates the entry when there is none; the level is then
  changed in place.
\<close>

definition add_to_book :: "book \<Rightarrow> order \<Rightarrow> book" where
  "add_to_book b ord =
     (let b1 =
        (if side ord = BUY
         then
           let level = (case map_find (price ord) (buy_levels b) of
                          None \<Rightarrow> PriceLevelImpl (price ord)
                        | Some l \<Rightarrow> l)
           in b\<lparr>buy_levels :=
                  map_insert (>) (price ord) (level_add_order level ord) (buy_levels b)\<rparr>
         else
           let level = (case map_find (price ord) (sell_levels b) of
                          None \<Rightarrow> PriceLevelImpl (price ord)
                        | Some l \<Rightarrow> l)
           in b\<lparr>sell_levels :=
                  map_insert (<) (price ord) (level_add_order level ord) (sell_levels b)\<rparr>)
      in b1\<lparr>order_map := (order_map b1)(order_id ord \<mapsto> ord)\<rparr>)"

text \<open>\<open>add_order\<close>: the trades returned, and the book afterwards.\<close>

definition add_order :: "book \<Rightarrow> order \<Rightarrow> trade list \<times> book" where
  "add_order b ord =
     (if quantity ord = 0 \<or> price ord \<le> 0 then ([], b)
      else if order_map b (order_id ord) \<noteq> None then ([], b)
      else
        case (if side ord = BUY then match_buy_order b ord [] else match_sell_order b ord [])
        of (b1, order_ptr, trades) \<Rightarrow>
          (trades, if 0 < quantity order_ptr then add_to_book b1 order_ptr else b1))"

text \<open>The two tests at the head of \<open>add_order\<close> that make it return at once.\<close>

definition fails_validation :: "book \<Rightarrow> order \<Rightarrow> bool" where
  "fails_validation b ord =
     (quantity ord = 0 \<or> price ord \<le> 0 \<or> order_map b (order_id ord) \<noteq> None)"

definition cancel_order :: "book \<Rightarrow> 64 word \<Rightarrow> bool \<times> book" where
  "cancel_order b oid =
     (case order_map b oid of
        None \<Rightarrow> (False, b)
      | Some ord \<Rightarrow>
          let b1 = b\<lparr>order_map := (order_map b)(oid := None)\<rparr>
          in if side ord = BUY
             then (case map_find (price ord) (buy_levels b1) of
                     None \<Rightarrow> (True, b1)
                   | Some level \<Rightarrow>
                       let level' = snd (remove_order level oid)
                       in if level_empty level'
                          then (True, b1\<lparr>buy_levels := map_erase (price ord) (buy_levels b1)\<rparr>)
                          else (True, b1\<lparr>buy_levels :=
                                            map_assign (price ord) level' (buy_levels b1)\<rparr>))
             else (case map_find (price ord) (sell_levels b1) of
                     None \<Rightarrow> (True, b1)
                   | Some level \<Rightarrow>
                       let level' = snd (remove_order level oid)
                       in if level_empty level'
                          then (True, b1\<lparr>sell_levels := map_erase (price ord) (sell_levels b1)\<rparr>)
                          else (True, b1\<lparr>sell_levels :=
                                            map_assign (price ord) level' (sell_levels b1)\<rparr>)))"

text \<open>
  \<open>modify_order\<close>. \<open>now\<close> is the reading of the steady clock that becomes the new order's
  \<open>timestamp_ns\<close>. The trades of the inner \<open>add_order\<close> are dropped, as in the source.
\<close>

definition modify_order :: "book \<Rightarrow> 64 word \<Rightarrow> 64 word \<Rightarrow> int \<Rightarrow> 32 word \<Rightarrow> order option \<times> book" where
  "modify_order b now oid new_price new_quantity =
     (case order_map b oid of
        None \<Rightarrow> (None, b)
      | Some old_order \<Rightarrow>
          (case cancel_order b oid of
             (False, b1) \<Rightarrow> (None, b1)
           | (True, b1) \<Rightarrow>
               let new_order = old_order\<lparr>price := new_price, quantity := new_quantity,
                                          timestamp_ns := now\<rparr>
               in (Some new_order, snd (add_order b1 new_order))))"

definition best_bid :: "book \<Rightarrow> int option" where
  "best_bid b = (case buy_levels b of [] \<Rightarrow> None | (px, _) # _ \<Rightarrow> Some px)"

definition best_ask :: "book \<Rightarrow> int option" where
  "best_ask b = (case sell_levels b of [] \<Rightarrow> None | (px, _) # _ \<Rightarrow> Some px)"

definition volume_at_price :: "book \<Rightarrow> int \<Rightarrow> side \<Rightarrow> 32 word" where
  "volume_at_price b px s =
     (case map_find px (if s = BUY then buy_levels b else sell_levels b) of
        None \<Rightarrow> 0
      | Some l \<Rightarrow> lvl_volume l)"

definition order_count_at_price :: "book \<Rightarrow> int \<Rightarrow> side \<Rightarrow> 32 word" where
  "order_count_at_price b px s =
     (case map_find px (if s = BUY then buy_levels b else sell_levels b) of
        None \<Rightarrow> 0
      | Some l \<Rightarrow> of_nat (length (lvl_orders l)))"

definition clear :: "book \<Rightarrow> book" where
  "clear b = b\<lparr>buy_levels := [], sell_levels := [], order_map := Map.empty\<rparr>"

text \<open>
  The books an \<open>OrderBookImpl\<close> can be in: its state is private, so these are the books
  that the public operations produce from a new one.
\<close>

inductive reachable :: "book \<Rightarrow> bool" where
  init: "reachable (create_order_book symbol)"
| add: "reachable b \<Longrightarrow> reachable (snd (add_order b ord))"
| cancel: "reachable b \<Longrightarrow> reachable (snd (cancel_order b oid))"
| modify: "reachable b \<Longrightarrow> reachable (snd (modify_order b now oid new_price new_quantity))"


section \<open>The matching engine worker (MatchingEngineImpl)\<close>

text \<open>The counters are \<open>std::atomic<uint64_t>\<close>; the worker is their only writer.\<close>

record engine_stats =
  total_orders :: "64 word"
  total_trades :: "64 word"
  total_volume :: "64 word"
  rejected_orders :: "64 word"
  cancelled_orders :: "64 word"
  modified_orders :: "64 word"

text \<open>
  A call of one of the two callbacks, with its arguments. What the callee does is the
  caller's code; the model records the calls in the order the worker makes them.
\<close>

datatype callback_event = OrderCallback order bool | TradeCallback trade

text \<open>
  The state the worker works on. \<open>order_callback_set\<close> and \<open>trade_callback_set\<close> say
  whether the \<open>std::function\<close> holds a callee (the tests \<open>if (order_callback_)\<close> and
  \<open>if (trade_callback_)\<close>).
\<close>

record engine =
  order_books :: "64 word \<rightharpoonup> book"
  stats :: engine_stats
  order_callback_set :: bool
  trade_callback_set :: bool

datatype order_request =
    NEW_ORDER order
  | CANCEL_ORDER "64 word" "64 word"
  | MODIFY_ORDER "64 word" "64 word" int "32 word"

text \<open>The \<open>for\<close> loop over the trades in \<open>process_new_order\<close>.\<close>

fun process_trades :: "engine \<Rightarrow> trade list \<Rightarrow> callback_event list \<times> engine" where
  "process_trades e [] = ([], e)"
| "process_trades e (t # ts) =
     (let e1 = e\<lparr>stats := (stats e)\<lparr>total_trades := total_trades (stats e) + 1\<rparr>\<rparr>;
          e2 = e1\<lparr>stats := (stats e1)\<lparr>total_volume :=
                                total_volume (stats e1) + ucast (trade_quantity t)\<rparr>\<rparr>;
          called = (if trade_callback_set e2 then [TradeCallback t] else [])
      in case process_trades e2 ts of (later, e3) \<Rightarrow> (called @ later, e3))"

definition process_new_order :: "engine \<Rightarrow> order \<Rightarrow> callback_event list \<times> engine" where
  "process_new_order e ord =
     (let e1 = e\<lparr>stats := (stats e)\<lparr>total_orders := total_orders (stats e) + 1\<rparr>\<rparr>
      in case order_books e1 (symbol_id ord) of
        None \<Rightarrow>
          (if order_callback_set e1 then [OrderCallback ord False] else [],
           e1\<lparr>stats := (stats e1)\<lparr>rejected_orders := rejected_orders (stats e1) + 1\<rparr>\<rparr>)
      | Some book \<Rightarrow>
          (case add_order book ord of
             (trades, book') \<Rightarrow>
               let e2 = e1\<lparr>order_books := (order_books e1)(symbol_id ord \<mapsto> book')\<rparr>;
                   called = (if order_callback_set e2 then [OrderCallback ord True] else [])
               in case process_trades e2 trades of (later, e3) \<Rightarrow> (called @ later, e3)))"

definition process_cancel_order :: "engine \<Rightarrow> 64 word \<Rightarrow> 64 word \<Rightarrow> engine" where
  "process_cancel_order e symbol oid =
     (case order_books e symbol of
        None \<Rightarrow> e
      | Some book \<Rightarrow>
          (case cancel_order book oid of
             (cancelled, book') \<Rightarrow>
               let e1 = e\<lparr>order_books := (order_books e)(symbol \<mapsto> book')\<rparr>
               in if cancelled
                  then e1\<lparr>stats := (stats e1)\<lparr>cancelled_orders :=
                                                cancelled_orders (stats e1) + 1\<rparr>\<rparr>
                  else e1))"

text \<open>\<open>now\<close> is the clock reading of the book's \<open>modify_order\<close>.\<close>

definition process_modify_order ::
  "engine \<Rightarrow> 64 word \<Rightarrow> 64 word \<Rightarrow> 64 word \<Rightarrow> int \<Rightarrow> 32 word \<Rightarrow> engine" where
  "process_modify_order e now symbol oid new_price new_quantity =
     (case order_books e symbol of
        None \<Rightarrow> e
      | Some book \<Rightarrow>
          (case modify_order book now oid new_price new_quantity of
             (modified, book') \<Rightarrow>
               let e1 = e\<lparr>order_books := (order_books e)(symbol \<mapsto> book')\<rparr>
               in if modified \<noteq> None
                  then e1\<lparr>stats := (stats e1)\<lparr>modified_orders :=
                                                modified_orders (stats e1) + 1\<rparr>\<rparr>
                  else e1))"

definition process_order_request ::
  "engine \<Rightarrow> 64 word \<Rightarrow> order_request \<Rightarrow> callback_event list \<times> engine" where
  "process_order_request e now request =
     (case request of
        NEW_ORDER ord \<Rightarrow> process_new_order e ord
      | CANCEL_ORDER symbol oid \<Rightarrow> ([], process_cancel_order e symbol oid)
      | MODIFY_ORDER symbol oid new_price new_quantity \<Rightarrow>
          ([], process_modify_order e now symbol oid new_price new_quantity))"


section \<open>The single-producer single-consumer queue (SPSCQueue)\<close>

text \<open>
  The nodes live in a store from addresses to nodes; \<open>None\<close> in \<open>node_next\<close> is
  \<open>nullptr\<close>. \<open>new Node\<close> takes the address \<open>q_fresh\<close>, which is above every address
  handed out earlier, and \<open>delete\<close> removes the node from the store. An operation that
  would read or write a node that is not in the store has no defined behaviour: it
  returns \<open>None\<close>.

  The operations run one at a time, each to its end, so the atomics are plain loads and
  stores. Allocation does not fail, and the value that \<open>std::move\<close> leaves behind in a
  node is not modelled as changed: that node is the next dummy and its data is never read
  again.
\<close>

record 'a node =
  node_next :: "nat option"
  node_data :: 'a

record 'a spsc_queue =
  q_nodes :: "nat \<rightharpoonup> 'a node"
  q_head :: nat
  q_tail :: nat
  q_cached_head :: nat
  q_cached_tail :: nat
  q_fresh :: nat

text \<open>The constructor; \<open>dflt\<close> is the value-initialised \<open>T\<close> of the dummy node.\<close>

definition SPSCQueue :: "'a \<Rightarrow> 'a spsc_queue" where
  "SPSCQueue dflt =
     \<lparr>q_nodes = [0 \<mapsto> \<lparr>node_next = None, node_data = dflt\<rparr>],
      q_head = 0, q_tail = 0, q_cached_head = 0, q_cached_tail = 0, q_fresh = 1\<rparr>"

definition enqueue :: "'a \<Rightarrow> 'a spsc_queue \<Rightarrow> (bool \<times> 'a spsc_queue) option" where
  "enqueue v q =
     (let new_node = q_fresh q;
          nodes1 = (q_nodes q)(new_node \<mapsto> \<lparr>node_next = None, node_data = v\<rparr>)
      in case q_nodes q (q_cached_tail q) of
        None \<Rightarrow> None
      | Some tail_node \<Rightarrow>
          Some (True,
                q\<lparr>q_nodes := nodes1(q_cached_tail q \<mapsto> tail_node\<lparr>node_next := Some new_node\<rparr>),
                  q_cached_tail := new_node, q_tail := new_node, q_fresh := Suc new_node\<rparr>))"

text \<open>
  The end of \<open>dequeue\<close>, from \<open>T data = std::move(next->data)\<close> on, with the values
  of the locals \<open>head\<close> and \<open>next\<close>.
\<close>

definition dequeue_take :: "'a spsc_queue \<Rightarrow> nat \<Rightarrow> nat \<Rightarrow> ('a option \<times> 'a spsc_queue) option" where
  "dequeue_take q head nxt =
     (case q_nodes q nxt of
        None \<Rightarrow> None
      | Some n \<Rightarrow>
          if q_nodes q head \<noteq> None
          then Some (Some (node_data n),
                     q\<lparr>q_head := nxt, q_cached_head := nxt,
                       q_nodes := (q_nodes q)(head := None)\<rparr>)
          else None)"

definition dequeue :: "'a spsc_queue \<Rightarrow> ('a option \<times> 'a spsc_queue) option" where
  "dequeue q =
     (case q_nodes q (q_cached_head q) of
        None \<Rightarrow> None
      | Some head_node \<Rightarrow>
          (case node_next head_node of
             Some nxt \<Rightarrow> dequeue_take q (q_cached_head q) nxt
           | None \<Rightarrow>
               if q_head q = q_cached_head q then Some (None, q)
               else
                 let q1 = q\<lparr>q_cached_head := q_head q\<rparr>
                 in (case q_nodes q1 (q_head q) of
                       None \<Rightarrow> None
                     | Some head_node' \<Rightarrow>
                         (case node_next head_node' of
                            None \<Rightarrow> Some (None, q1)
                          | Some nxt \<Rightarrow> dequeue_take q1 (q_head q) nxt))))"

text \<open>A sequential use of the queue: the calls in order, and what each returned.\<close>

datatype 'a queue_call = Enqueue 'a | Dequeue

datatype 'a queue_return = Enqueued bool | Dequeued "'a option"

fun run_queue :: "'a queue_call list \<Rightarrow> 'a spsc_queue \<Rightarrow> ('a queue_return list \<times> 'a spsc_queue) option" where
  "run_queue [] q = Some ([], q)"
| "run_queue (Enqueue v # calls) q =
     (case enqueue v q of
        None \<Rightarrow> None
      | Some (r, q1) \<Rightarrow>
          (case run_queue calls q1 of
             None \<Rightarrow> None
           | Some (rs, q2) \<Rightarrow> Some (Enqueued r # rs, q2)))"
| "run_queue (Dequeue # calls) q =
     (case dequeue q of
        None \<Rightarrow> None
      | Some (r, q1) \<Rightarrow>
          (case run_queue calls q1 of
             None \<Rightarrow> None
           | Some (rs, q2) \<Rightarrow> Some (Dequeued r # rs, q2)))"

section \<open>Arbitrage opportunities between the feeds (network/feed_simulator.hpp)\<close>

subsection \<open>Double-precision arithmetic\<close>

text \<open>
  The profit of an opportunity is a \<open>double\<close>. A finite double is modelled by the real
  number it denotes, and an operation returns \<open>None\<close> when its IEEE 754 result is not a
  finite number (an infinity or a NaN). The sign of a zero is not modelled: no comparison
  depends on it.
\<close>

text \<open>The nearest integer, and of two equally near ones the even one.\<close>

definition round_even :: "real \<Rightarrow> int" where
  "round_even x =
     (let n = \<lfloor>x\<rfloor>; r = x - of_int n
      in if r < 1 / 2 then n else if 1 / 2 < r then n + 1 else if even n then n else n + 1)"

text \<open>
  The binary exponent of a positive \<open>x\<close>, the integer \<open>e\<close> with \<open>2 ^ e \<le> x < 2 ^ (e + 1)\<close>,
  computed from the bit length of an integer.
\<close>

definition exponent :: "real \<Rightarrow> int" where
  "exponent x = (if 1 \<le> x then bitlen \<lfloor>x\<rfloor> - 1 else - bitlen (\<lceil>1 / x\<rceil> - 1))"

text \<open>
  Rounding to the nearest binary64 number, ties to the even significand, which is the
  rounding of every operation in the default rounding mode. The significand has 53 bits,
  so the unit in the last place of a number with exponent \<open>e\<close> is \<open>2 ^ (e - 52)\<close>; below
  the least normal exponent \<open>-1022\<close> the unit stays \<open>2 ^ -1074\<close> (the subnormal numbers),
  and a result of magnitude \<open>2 ^ 1024\<close> or more is an overflow.
\<close>

definition binary64 :: "real \<Rightarrow> real option" where
  "binary64 x =
     (if x = 0 then Some 0
      else let e = max (exponent \<bar>x\<bar>) (- 1022);
               ulp = 2 powi (e - 52);
               y = sgn x * of_int (round_even (\<bar>x\<bar> / ulp)) * ulp
           in if \<bar>y\<bar> < 2 powi 1024 then Some y else None)"

text \<open>
  The conversion of an \<open>int64_t\<close> to \<open>double\<close>, and the division and the multiplication
  of two finite doubles. A division by zero gives an infinity or a NaN.
\<close>

definition double_of_int64 :: "64 word \<Rightarrow> real option" where
  "double_of_int64 n = binary64 (of_int (sint n))"

definition double_div :: "real \<Rightarrow> real \<Rightarrow> real option" where
  "double_div x y = (if y = 0 then None else binary64 (x / y))"

definition double_mul :: "real \<Rightarrow> real \<Rightarrow> real option" where
  "double_mul x y = binary64 (x * y)"

subsection \<open>The opportunity and its profit\<close>

text \<open>
  \<open>struct ArbitrageOpportunity\<close>. The four prices and \<open>price_difference\<close> are \<open>int64_t\<close>,
  held as 64-bit words and read as signed numbers by \<open>sint\<close>; the other numbers are
  \<open>uint64_t\<close>.
\<close>

record arbitrage_opportunity =
  opp_symbol_id :: "64 word"
  fast_feed :: char
  slow_feed :: char
  price_difference :: "64 word"
  latency_difference_ns :: "64 word"
  opp_timestamp_ns :: "64 word"
  feed_a_bid :: "64 word"
  feed_a_ask :: "64 word"
  feed_b_bid :: "64 word"
  feed_b_ask :: "64 word"

text \<open>
  \<open>profit_basis_points\<close>. In \<open>((double)(feed_b_bid - feed_a_ask) / feed_a_ask) * 10000\<close> the
  difference is taken in \<open>int64_t\<close> and then converted, the divisor is converted to
  \<open>double\<close> for the division, the quotient is rounded, and so is its product with the
  double 10000. The difference is written as the subtraction of words; in both branches
  the tests before it keep it from overflowing (\<open>sint_sub_crossed\<close> below).
\<close>

definition profit_basis_points :: "arbitrage_opportunity \<Rightarrow> real option" where
  "profit_basis_points opp =
     (if 0 < sint (feed_a_ask opp) \<and> 0 < sint (feed_b_bid opp)
         \<and> sint (feed_a_ask opp) < sint (feed_b_bid opp)
      then Option.bind (double_of_int64 (feed_b_bid opp - feed_a_ask opp)) (\<lambda>d.
           Option.bind (double_of_int64 (feed_a_ask opp)) (\<lambda>p.
           Option.bind (double_div d p) (\<lambda>q. double_mul q 10000)))
      else if 0 < sint (feed_b_ask opp) \<and> 0 < sint (feed_a_bid opp)
         \<and> sint (feed_b_ask opp) < sint (feed_a_bid opp)
      then Option.bind (double_of_int64 (feed_a_bid opp - feed_b_ask opp)) (\<lambda>d.
           Option.bind (double_of_int64 (feed_b_ask opp)) (\<lambda>p.
           Option.bind (double_div d p) (\<lambda>q. double_mul q 10000)))
      else Some 0)"

text \<open>
  \<open>is_profitable\<close>: \<open>profit_basis_points() > 0.0\<close>. The comparison is modelled for a finite
  profit; \<open>profit_basis_points\<close> is shown below to return no other.
\<close>

definition is_profitable :: "arbitrage_opportunity \<Rightarrow> bool option" where
  "is_profitable opp = map_option (\<lambda>v. 0 < v) (profit_basis_points opp)"

section \<open>Example books\<close>

text \<open>A book for symbol 7 with one resting bid: order 1, 10 units at 100.\<close>

definition book_one_bid :: book where
  "book_one_bid = snd (add_order (create_order_book 7) (Order 1 7 100 10 BUY 0 0))"

text \<open>
  An engine with both callbacks set and fresh counters: without a registered symbol, and
  with symbol 7 registered and holding \<open>book_one_bid\<close>.
\<close>

definition engine_empty :: engine where
  "engine_empty =
     \<lparr>order_books = Map.empty,
      stats = \<lparr>total_orders = 0, total_trades = 0, total_volume = 0, rejected_orders = 0,
               cancelled_orders = 0, modified_orders = 0\<rparr>,
      order_callback_set = True, trade_callback_set = True\<rparr>"

definition engine_one_bid :: engine where
  "engine_one_bid = engine_empty\<lparr>order_books := [7 \<mapsto> book_one_bid]\<rparr>"

text \<open>\<open>book_one_bid\<close> after a sell of 5 units at 101 (order 2), which does not cross.\<close>

definition book_two_sided :: book where
  "book_two_sided = snd (add_order book_one_bid (Order 2 7 101 5 SELL 0 0))"

text \<open>
  Opportunities for symbol 1. Feed A quotes 10000 / 10010 and feed B 10020 / 10030: the
  bid of B is above the ask of A. The same with the feeds exchanged. Feed A quotes
  10000 / 10010 and feed B 9990 / 10005: the prices differ, and neither bid is above the
  other feed's ask.
\<close>

definition opp_buy_a :: arbitrage_opportunity where
  "opp_buy_a = \<lparr>opp_symbol_id = 1, fast_feed = CHR ''A'', slow_feed = CHR ''B'',
     price_difference = 20, latency_difference_ns = 1000, opp_timestamp_ns = 0,
     feed_a_bid = 10000, feed_a_ask = 10010, feed_b_bid = 10020, feed_b_ask = 10030\<rparr>"

definition opp_buy_b :: arbitrage_opportunity where
  "opp_buy_b = \<lparr>opp_symbol_id = 1, fast_feed = CHR ''A'', slow_feed = CHR ''B'',
     price_difference = 20, latency_difference_ns = 1000, opp_timestamp_ns = 0,
     feed_a_bid = 10020, feed_a_ask = 10030, feed_b_bid = 10000, feed_b_ask = 10010\<rparr>"

definition opp_disparity :: arbitrage_opportunity where
  "opp_disparity = \<lparr>opp_symbol_id = 1, fast_feed = CHR ''A'', slow_feed = CHR ''B'',
     price_difference = 10, latency_difference_ns = 1000, opp_timestamp_ns = 0,
     feed_a_bid = 10000, feed_a_ask = 10010, feed_b_bid = 9990, feed_b_ask = 10005\<rparr>"

section \<open>Predicates of the statements\<close>

text \<open>
  The resting orders of one side as pairs of the level's key and the order's id.
\<close>

definition resting :: "price_level price_map \<Rightarrow> (int \<times> 64 word) set" where
  "resting kvs = {(p, order_id ord) | p l ord. (p, l) \<in> set kvs \<and> ord \<in> set (lvl_orders l)}"

text \<open>
  A trade of an incoming buy \<open>inc\<close> against the asks of \<open>b\<close>: its price is the key of
  a level of asks that holds the passive order, and is at most the limit of \<open>inc\<close>. Both
  loops pass the incoming order first and the resting order second to \<open>generate_trade\<close>,
  so the passive order's id is in \<open>sell_order_id\<close> and the incoming order's in
  \<open>buy_order_id\<close>, for a buy and for a sell.
\<close>

definition buy_trade_ok :: "book \<Rightarrow> order \<Rightarrow> trade \<Rightarrow> bool" where
  "buy_trade_ok b inc t =
     ((trade_price t, sell_order_id t) \<in> resting (sell_levels b) \<and>
      trade_price t \<le> price inc \<and> buy_order_id t = order_id inc)"

definition sell_trade_ok :: "book \<Rightarrow> order \<Rightarrow> trade \<Rightarrow> bool" where
  "sell_trade_ok b inc t =
     ((trade_price t, sell_order_id t) \<in> resting (buy_levels b) \<and>
      price inc \<le> trade_price t \<and> buy_order_id t = order_id inc)"

text \<open>
  The prices of a book: each side's keys are strictly ordered by its comparator, and every
  bid is below every ask.
\<close>

definition price_inv :: "book \<Rightarrow> bool" where
  "price_inv b =
     (ordered_map (>) (buy_levels b) \<and> ordered_map (<) (sell_levels b) \<and>
      (\<forall>bp\<in>fst ` set (buy_levels b). \<forall>ap\<in>fst ` set (sell_levels b). bp < ap))"

text \<open>
  A level against the index: it carries its key as its price and is not empty; its orders
  have different ids; and each of them is what the index holds for its id, has the
  level's price and is of the level's side. This is what the shared ownership of an
  order by its level and the index amounts to, and why the \<open>assert\<close> of
  \<open>PriceLevelImpl::add_order\<close> holds.
\<close>

definition level_inv :: "side \<Rightarrow> (64 word \<rightharpoonup> order) \<Rightarrow> int \<Rightarrow> price_level \<Rightarrow> bool" where
  "level_inv s om p l =
     (lvl_price l = p \<and> lvl_orders l \<noteq> [] \<and> distinct (map order_id (lvl_orders l)) \<and>
      (\<forall>ord\<in>set (lvl_orders l).
         om (order_id ord) = Some ord \<and> price ord = p \<and> side ord = s))"

definition side_inv :: "side \<Rightarrow> (64 word \<rightharpoonup> order) \<Rightarrow> price_level price_map \<Rightarrow> bool" where
  "side_inv s om kvs = (\<forall>kv\<in>set kvs. level_inv s om (fst kv) (snd kv))"

definition book_inv :: "book \<Rightarrow> bool" where
  "book_inv b =
     (price_inv b \<and> side_inv BUY (order_map b) (buy_levels b) \<and>
      side_inv SELL (order_map b) (sell_levels b))"

text \<open>
  What \<open>cancel_order\<close> does to the map of the order's side, once it has found the order
  \<open>ord\<close> under \<open>oid\<close>.
\<close>

definition cancel_levels :: "order \<Rightarrow> 64 word \<Rightarrow> price_level price_map \<Rightarrow> price_level price_map" where
  "cancel_levels ord oid kvs =
     (case map_find (price ord) kvs of
        None \<Rightarrow> kvs
      | Some level \<Rightarrow>
          let level' = snd (remove_order level oid)
          in if level_empty level' then map_erase (price ord) kvs
             else map_assign (price ord) level' kvs)"

text \<open>
  The queue the specification describes: \<open>enqueue\<close> always succeeds, \<open>dequeue\<close> returns
  the oldest pending value, or nothing when none is pending. \<open>fifo_spec\<close> gives what the
  calls return, from the values pending at the start; \<open>fifo_pending\<close> the values pending
  after the calls.
\<close>

fun fifo_spec :: "'a queue_call list \<Rightarrow> 'a list \<Rightarrow> 'a queue_return list" where
  "fifo_spec [] pending = []"
| "fifo_spec (Enqueue v # calls) pending = Enqueued True # fifo_spec calls (pending @ [v])"
| "fifo_spec (Dequeue # calls) [] = Dequeued None # fifo_spec calls []"
| "fifo_spec (Dequeue # calls) (x # pending) = Dequeued (Some x) # fifo_spec calls pending"

fun fifo_pending :: "'a queue_call list \<Rightarrow> 'a list \<Rightarrow> 'a list" where
  "fifo_pending [] pending = pending"
| "fifo_pending (Enqueue v # calls) pending = fifo_pending calls (pending @ [v])"
| "fifo_pending (Dequeue # calls) pending = fifo_pending calls (tl pending)"

text \<open>The values enqueued by a list of calls, and the values a list of returns delivered.\<close>

fun enqueued :: "'a queue_call list \<Rightarrow> 'a list" where
  "enqueued [] = []"
| "enqueued (Enqueue v # calls) = v # enqueued calls"
| "enqueued (Dequeue # calls) = enqueued calls"

fun dequeued :: "'a queue_return list \<Rightarrow> 'a list" where
  "dequeued [] = []"
| "dequeued (Dequeued (Some x) # rs) = x # dequeued rs"
| "dequeued (r # rs) = dequeued rs"

text \<open>
  \<open>chain h p xs tl_addr\<close>: in the store \<open>h\<close>, following \<open>next\<close> from the node at \<open>p\<close>
  leads through nodes that carry \<open>xs\<close>, in this order, and ends at \<open>tl_addr\<close>; the
  addresses grow along the way. \<open>queue_inv q xs\<close>: the nodes after the dummy at \<open>head_\<close>
  carry \<open>xs\<close> and end at \<open>tail_\<close>, whose \<open>next\<close> is null; the cached pointers equal
  the shared ones; every node in the store was allocated.
\<close>

fun chain :: "(nat \<rightharpoonup> 'a node) \<Rightarrow> nat \<Rightarrow> 'a list \<Rightarrow> nat \<Rightarrow> bool" where
  "chain h p [] tl_addr = (p = tl_addr)"
| "chain h p (x # xs) tl_addr =
     (case h p of
        None \<Rightarrow> False
      | Some n \<Rightarrow>
          (case node_next n of
             None \<Rightarrow> False
           | Some p' \<Rightarrow>
               p < p' \<and> (case h p' of None \<Rightarrow> False | Some n' \<Rightarrow> node_data n' = x) \<and>
               chain h p' xs tl_addr))"

definition queue_inv :: "'a spsc_queue \<Rightarrow> 'a list \<Rightarrow> bool" where
  "queue_inv q xs =
     (q_cached_head q = q_head q \<and> q_cached_tail q = q_tail q \<and>
      chain (q_nodes q) (q_head q) xs (q_tail q) \<and>
      (case q_nodes q (q_tail q) of None \<Rightarrow> False | Some n \<Rightarrow> node_next n = None) \<and>
      (\<forall>a\<in>dom (q_nodes q). a < q_fresh q))"

text \<open>
  The two feeds are crossed at a bid of one and an ask of the other: both prices are
  positive and the bid is strictly above the ask.
\<close>

definition crossed :: "64 word \<Rightarrow> 64 word \<Rightarrow> bool" where
  "crossed bid ask \<longleftrightarrow> 0 < sint ask \<and> 0 < sint bid \<and> sint ask < sint bid"

text \<open>
  \<open>((P_sell - P_buy) / P_buy) * 10000\<close> as a real number, and the same expression over
  the integers \<open>P_sell\<close> and \<open>P_buy\<close> evaluated in \<open>double\<close>: the difference and the divisor
  converted, the quotient and the product rounded.
\<close>

definition basis_points :: "int \<Rightarrow> int \<Rightarrow> real" where
  "basis_points p_sell p_buy = (of_int (p_sell - p_buy) / of_int p_buy) * 10000"

definition basis_points_double :: "int \<Rightarrow> int \<Rightarrow> real option" where
  "basis_points_double p_sell p_buy =
     Option.bind (binary64 (of_int (p_sell - p_buy))) (\<lambda>d.
     Option.bind (binary64 (of_int p_buy)) (\<lambda>p.
     Option.bind (double_div d p) (\<lambda>q. double_mul q 10000)))"

text \<open>
  An opportunity that is a disparity only: the prices of one side differ between the
  feeds, and the feeds are not crossed.
\<close>

definition disparity_only :: "arbitrage_opportunity \<Rightarrow> bool" where
  "disparity_only opp \<longleftrightarrow>
     (feed_a_bid opp \<noteq> feed_b_bid opp \<or> feed_a_ask opp \<noteq> feed_b_ask opp)
     \<and> \<not> crossed (feed_b_bid opp) (feed_a_ask opp)
     \<and> \<not> crossed (feed_a_bid opp) (feed_b_ask opp)"

section \<open>Unfolding the loops\<close>

declare match_buy_order.simps [simp del] match_sell_order.simps [simp del]

lemma match_buy_order_stop:
  "match_buy_iter b ord ts = None \<Longrightarrow> match_buy_order b ord ts = (b, ord, ts)"
  by (simp add: match_buy_order.simps)

lemma match_buy_order_pass:
  "match_buy_iter b ord ts = Some (b', ord', ts') \<Longrightarrow>
   match_buy_order b ord ts = match_buy_order b' ord' ts'"
  by (simp add: match_buy_order.simps)

lemma match_sell_order_stop:
  "match_sell_iter b ord ts = None \<Longrightarrow> match_sell_order b ord ts = (b, ord, ts)"
  by (simp add: match_sell_order.simps)

lemma match_sell_order_pass:
  "match_sell_iter b ord ts = Some (b', ord', ts') \<Longrightarrow>
   match_sell_order b ord ts = match_sell_order b' ord' ts'"
  by (simp add: match_sell_order.simps)

lemmas level_ops =
  peek_front_def remove_front_after_fill_def update_volume_after_partial_fill_def
  level_empty_def set_front_quantity_def level_add_order_def PriceLevelImpl_def
  generate_trade_def Trade_def

lemma book_one_bid_eq:
  "book_one_bid =
     \<lparr>book_symbol_id = 7,
      buy_levels = [(100, \<lparr>lvl_price = 100, lvl_orders = [Order 1 7 100 10 BUY 0 0],
                           lvl_volume = 10\<rparr>)],
      sell_levels = [],
      order_map = [1 \<mapsto> Order 1 7 100 10 BUY 0 0],
      next_trade_id = 1\<rparr>"
  by (simp add: book_one_bid_def add_order_def Order_def create_order_book_def
        match_buy_order_stop match_buy_iter_def add_to_book_def map_find_def
        PriceLevelImpl_def level_add_order_def)

lemma cancel_order_found: "order_map b oid = Some ord \<Longrightarrow> fst (cancel_order b oid) = True"
  by (simp add: cancel_order_def Let_def split: option.splits)

lemma cancel_order_absent: "order_map b oid = None \<Longrightarrow> cancel_order b oid = (False, b)"
  by (simp add: cancel_order_def)

lemma add_order_one_bid_sell4:
  "add_order book_one_bid (Order 2 7 100 4 SELL 0 0) =
     ([\<lparr>trade_id = 1, buy_order_id = 2, sell_order_id = 1, trade_symbol_id = 7,
        trade_price = 100, trade_quantity = 4\<rparr>],
      \<lparr>book_symbol_id = 7,
       buy_levels = [(100, \<lparr>lvl_price = 100, lvl_orders = [Order 1 7 100 6 BUY 0 0],
                            lvl_volume = 6\<rparr>)],
       sell_levels = [],
       order_map = [1 \<mapsto> Order 1 7 100 6 BUY 0 0],
       next_trade_id = 2\<rparr>)"
  by (simp add: book_one_bid_eq add_order_def Order_def match_sell_order.simps
        match_sell_iter_def level_ops Let_def)

lemma book_two_sided_eq:
  "book_two_sided =
     \<lparr>book_symbol_id = 7,
      buy_levels = [(100, \<lparr>lvl_price = 100, lvl_orders = [Order 1 7 100 10 BUY 0 0],
                           lvl_volume = 10\<rparr>)],
      sell_levels = [(101, \<lparr>lvl_price = 101, lvl_orders = [Order 2 7 101 5 SELL 0 0],
                            lvl_volume = 5\<rparr>)],
      order_map = [1 \<mapsto> Order 1 7 100 10 BUY 0 0, 2 \<mapsto> Order 2 7 101 5 SELL 0 0],
      next_trade_id = 1\<rparr>"
  by (simp add: book_two_sided_def book_one_bid_eq add_order_def Order_def
        match_sell_order.simps match_sell_iter_def add_to_book_def map_find_def level_ops)

lemma reachable_book_one_bid: "reachable book_one_bid"
  unfolding book_one_bid_def by (intro reachable.add reachable.init)


section \<open>Rejected orders\<close>

text \<open>
  Claim C3. An order with quantity 0, with a price that is not positive, or with an
  \<open>order_id\<close> that \<open>order_map_\<close> already holds gets no trades from \<open>add_order\<close>, and the
  book after the call is the book before it: levels, index and \<open>next_trade_id_\<close>.
\<close>

theorem add_order_rejects:
  assumes "quantity ord = 0 \<or> price ord \<le> 0 \<or> order_map b (order_id ord) \<noteq> None"
  shows "add_order b ord = ([], b)"
  using assms by (auto simp: add_order_def)

theorem add_order_rejects_witness:
  "order_map book_one_bid (order_id (Order 1 7 101 5 BUY 0 0)) \<noteq> None \<and>
   add_order book_one_bid (Order 1 7 101 5 BUY 0 0) = ([], book_one_bid)"
proof -
  have h: "order_map book_one_bid (order_id (Order 1 7 101 5 BUY 0 0)) \<noteq> None"
    by (simp add: book_one_bid_eq Order_def)
  then show ?thesis
    using add_order_rejects [of "Order 1 7 101 5 BUY 0 0" book_one_bid] by simp
qed


section \<open>Modify is cancel, then add\<close>

text \<open>
  Claim C4. When \<open>order_id\<close> resolves to a resting order, \<open>modify_order\<close> leaves the book
  that \<open>cancel_order\<close> followed by \<open>add_order\<close> leaves, the order added being the old
  one with the new price, the new quantity and the new clock reading as its timestamp,
  and it returns that order. When \<open>order_id\<close> is absent it returns nothing and the book
  is as before.
\<close>

theorem modify_order_cancel_add:
  "(order_map b oid = Some old \<longrightarrow>
      modify_order b now oid new_price new_quantity =
        (Some (old\<lparr>price := new_price, quantity := new_quantity, timestamp_ns := now\<rparr>),
         snd (add_order (snd (cancel_order b oid))
                (old\<lparr>price := new_price, quantity := new_quantity, timestamp_ns := now\<rparr>)))) \<and>
   (order_map b oid = None \<longrightarrow>
      modify_order b now oid new_price new_quantity = (None, b))"
proof (intro conjI impI)
  assume h: "order_map b oid = Some old"
  obtain c b1 where c: "cancel_order b oid = (c, b1)"
    by (cases "cancel_order b oid")
  with cancel_order_found [OF h] have "c = True" by simp
  with h c show "modify_order b now oid new_price new_quantity =
        (Some (old\<lparr>price := new_price, quantity := new_quantity, timestamp_ns := now\<rparr>),
         snd (add_order (snd (cancel_order b oid))
                (old\<lparr>price := new_price, quantity := new_quantity, timestamp_ns := now\<rparr>)))"
    by (simp add: modify_order_def Let_def)
next
  assume "order_map b oid = None"
  then show "modify_order b now oid new_price new_quantity = (None, b)"
    by (simp add: modify_order_def)
qed

theorem modify_order_cancel_add_witness:
  "order_map book_one_bid 1 = Some (Order 1 7 100 10 BUY 0 0) \<and>
   modify_order book_one_bid 99 1 101 20 =
     (Some (Order 1 7 101 20 BUY 0 99),
      snd (add_order (snd (cancel_order book_one_bid 1)) (Order 1 7 101 20 BUY 0 99))) \<and>
   order_map book_one_bid 2 = None \<and>
   modify_order book_one_bid 99 2 101 20 = (None, book_one_bid)"
proof -
  have h1: "order_map book_one_bid 1 = Some (Order 1 7 100 10 BUY 0 0)"
    by (simp add: book_one_bid_eq)
  have h2: "order_map book_one_bid 2 = None"
    by (simp add: book_one_bid_eq)
  have e: "(Order 1 7 100 10 BUY 0 0)\<lparr>price := 101, quantity := 20, timestamp_ns := 99\<rparr>
             = Order 1 7 101 20 BUY 0 99"
    by (simp add: Order_def)
  from h1 h2 e show ?thesis
    using modify_order_cancel_add [of book_one_bid 1 "Order 1 7 100 10 BUY 0 0" 99 101 20]
      modify_order_cancel_add [of book_one_bid 2 "Order 1 7 100 10 BUY 0 0" 99 101 20]
    by simp
qed

section \<open>The worker on a new order\<close>

lemma process_trades_keeps:
  "process_trades e ts = (evs, e') \<Longrightarrow>
     order_books e' = order_books e \<and>
     order_callback_set e' = order_callback_set e \<and>
     trade_callback_set e' = trade_callback_set e \<and>
     total_orders (stats e') = total_orders (stats e) \<and>
     rejected_orders (stats e') = rejected_orders (stats e) \<and>
     cancelled_orders (stats e') = cancelled_orders (stats e) \<and>
     modified_orders (stats e') = modified_orders (stats e)"
proof (induction ts arbitrary: e evs e')
  case Nil
  then show ?case by simp
next
  case (Cons t ts)
  then show ?case
    by (auto simp: Let_def split: prod.splits)
qed

lemma process_trades_events:
  "trade_callback_set e \<Longrightarrow> process_trades e ts = (evs, e') \<Longrightarrow> evs = map TradeCallback ts"
proof (induction ts arbitrary: e evs e')
  case Nil
  then show ?case by simp
next
  case (Cons t ts)
  define e2 where "e2 = e\<lparr>stats := (stats e)\<lparr>total_trades := total_trades (stats e) + 1,
      total_volume := total_volume (stats e) + ucast (trade_quantity t)\<rparr>\<rparr>"
  obtain later e3 where p: "process_trades e2 ts = (later, e3)"
    by (cases "process_trades e2 ts")
  have "trade_callback_set e2" using Cons.prems(1) by (simp add: e2_def)
  from Cons.IH [OF this p] have "later = map TradeCallback ts" .
  with Cons.prems p show ?case
    by (simp add: Let_def e2_def)
qed

text \<open>
  Claim C10. The worker adds one to \<open>total_orders\<close> for every \<open>NEW_ORDER\<close> request,
  whatever the order and whether or not its symbol is registered: the counter counts
  submissions. A submission for an unregistered symbol also adds one to
  \<open>rejected_orders\<close>; any other leaves \<open>rejected_orders\<close> as it was.
\<close>

theorem total_orders_every_submission:
  "total_orders (stats (snd (process_order_request e now (NEW_ORDER ord)))) =
     total_orders (stats e) + 1 \<and>
   rejected_orders (stats (snd (process_order_request e now (NEW_ORDER ord)))) =
     (if order_books e (symbol_id ord) = None
      then rejected_orders (stats e) + 1 else rejected_orders (stats e))"
proof (cases "order_books e (symbol_id ord)")
  case None
  then show ?thesis
    by (simp add: process_order_request_def process_new_order_def)
next
  case (Some book)
  obtain trades book' where a: "add_order book ord = (trades, book')"
    by (cases "add_order book ord")
  define e2 where "e2 = e\<lparr>stats := (stats e)\<lparr>total_orders := total_orders (stats e) + 1\<rparr>,
                          order_books := (order_books e)(symbol_id ord \<mapsto> book')\<rparr>"
  obtain later e3 where p: "process_trades e2 trades = (later, e3)"
    by (cases "process_trades e2 trades")
  from process_trades_keeps [OF p] Some a p show ?thesis
    by (simp add: process_order_request_def process_new_order_def e2_def)
qed

theorem total_orders_every_submission_witness:
  "total_orders (stats (snd (process_order_request engine_empty 0
      (NEW_ORDER (Order 1 7 100 0 BUY 0 0))))) = 1 \<and>
   rejected_orders (stats (snd (process_order_request engine_empty 0
      (NEW_ORDER (Order 1 7 100 0 BUY 0 0))))) = 1 \<and>
   total_orders (stats (snd (process_order_request engine_one_bid 0
      (NEW_ORDER (Order 1 7 100 0 BUY 0 0))))) = 1 \<and>
   rejected_orders (stats (snd (process_order_request engine_one_bid 0
      (NEW_ORDER (Order 1 7 100 0 BUY 0 0))))) = 0"
  using total_orders_every_submission [of engine_empty 0 "Order 1 7 100 0 BUY 0 0"]
    total_orders_every_submission [of engine_one_bid 0 "Order 1 7 100 0 BUY 0 0"]
  by (simp add: engine_empty_def engine_one_bid_def Order_def)

text \<open>
  Claim C6, as amended. With both callbacks set, the worker's calls for a new order are:
  the order callback once, for that order, with \<open>accepted\<close> false when the symbol is
  not registered and true otherwise; then the trade callback once for each trade that
  \<open>add_order\<close> returned, in that order. An order that fails the book's validation
  (quantity 0, price not positive, duplicate id) on a registered symbol is reported with
  \<open>accepted\<close> true; it shows only in what does not change: there is no trade callback,
  and the books and every counter but \<open>total_orders\<close>, which is incremented, are as
  before.
\<close>

theorem new_order_callbacks:
  assumes "order_callback_set e" and "trade_callback_set e"
  shows "fst (process_new_order e ord) =
           (case order_books e (symbol_id ord) of
              None \<Rightarrow> [OrderCallback ord False]
            | Some book \<Rightarrow>
                OrderCallback ord True # map TradeCallback (fst (add_order book ord))) \<and>
         (\<forall>book. order_books e (symbol_id ord) = Some book \<and> fails_validation book ord \<longrightarrow>
            process_new_order e ord =
              ([OrderCallback ord True],
               e\<lparr>stats := (stats e)\<lparr>total_orders := total_orders (stats e) + 1\<rparr>\<rparr>))"
proof (intro conjI allI impI)
  show "fst (process_new_order e ord) =
           (case order_books e (symbol_id ord) of
              None \<Rightarrow> [OrderCallback ord False]
            | Some book \<Rightarrow>
                OrderCallback ord True # map TradeCallback (fst (add_order book ord)))"
  proof (cases "order_books e (symbol_id ord)")
    case None
    with assms show ?thesis by (simp add: process_new_order_def)
  next
    case (Some book)
    obtain trades book' where a: "add_order book ord = (trades, book')"
      by (cases "add_order book ord")
    define e2 where "e2 = e\<lparr>stats := (stats e)\<lparr>total_orders := total_orders (stats e) + 1\<rparr>,
                            order_books := (order_books e)(symbol_id ord \<mapsto> book')\<rparr>"
    obtain later e3 where p: "process_trades e2 trades = (later, e3)"
      by (cases "process_trades e2 trades")
    have "trade_callback_set e2" using assms by (simp add: e2_def)
    from process_trades_events [OF this p] have "later = map TradeCallback trades" .
    with Some a assms p show ?thesis
      by (simp add: process_new_order_def e2_def)
  qed
next
  fix book
  assume h: "order_books e (symbol_id ord) = Some book \<and> fails_validation book ord"
  then have a: "add_order book ord = ([], book)"
    by (auto simp: add_order_def fails_validation_def)
  from h have "(order_books e)(symbol_id ord \<mapsto> book) = order_books e"
    by (auto simp: fun_eq_iff)
  with h a assms show "process_new_order e ord =
              ([OrderCallback ord True],
               e\<lparr>stats := (stats e)\<lparr>total_orders := total_orders (stats e) + 1\<rparr>\<rparr>)"
    by (simp add: process_new_order_def)
qed

theorem new_order_callbacks_witness:
  "order_callback_set engine_one_bid \<and> trade_callback_set engine_one_bid \<and>
   fst (process_new_order engine_one_bid (Order 2 7 100 4 SELL 0 0)) =
     [OrderCallback (Order 2 7 100 4 SELL 0 0) True,
      TradeCallback \<lparr>trade_id = 1, buy_order_id = 2, sell_order_id = 1, trade_symbol_id = 7,
                      trade_price = 100, trade_quantity = 4\<rparr>] \<and>
   fst (process_new_order engine_empty (Order 2 7 100 4 SELL 0 0)) =
     [OrderCallback (Order 2 7 100 4 SELL 0 0) False] \<and>
   order_books engine_one_bid (symbol_id (Order 1 7 100 0 BUY 0 0)) = Some book_one_bid \<and>
   fails_validation book_one_bid (Order 1 7 100 0 BUY 0 0) \<and>
   process_new_order engine_one_bid (Order 1 7 100 0 BUY 0 0) =
     ([OrderCallback (Order 1 7 100 0 BUY 0 0) True],
      engine_one_bid\<lparr>stats := (stats engine_one_bid)\<lparr>total_orders :=
                                total_orders (stats engine_one_bid) + 1\<rparr>\<rparr>)"
proof -
  have cb: "order_callback_set engine_one_bid" "trade_callback_set engine_one_bid"
    "order_callback_set engine_empty" "trade_callback_set engine_empty"
    by (simp_all add: engine_one_bid_def engine_empty_def)
  have b1: "order_books engine_one_bid (symbol_id (Order 2 7 100 4 SELL 0 0)) = Some book_one_bid"
    by (simp add: engine_one_bid_def Order_def)
  have b2: "order_books engine_empty (symbol_id (Order 2 7 100 4 SELL 0 0)) = None"
    by (simp add: engine_empty_def)
  have b3: "order_books engine_one_bid (symbol_id (Order 1 7 100 0 BUY 0 0)) = Some book_one_bid"
    by (simp add: engine_one_bid_def Order_def)
  have f: "fails_validation book_one_bid (Order 1 7 100 0 BUY 0 0)"
    by (simp add: fails_validation_def Order_def)
  from new_order_callbacks [OF cb(1,2), of "Order 2 7 100 4 SELL 0 0"] b1
  have 1: "fst (process_new_order engine_one_bid (Order 2 7 100 4 SELL 0 0)) =
     [OrderCallback (Order 2 7 100 4 SELL 0 0) True,
      TradeCallback \<lparr>trade_id = 1, buy_order_id = 2, sell_order_id = 1, trade_symbol_id = 7,
                      trade_price = 100, trade_quantity = 4\<rparr>]"
    by (simp add: add_order_one_bid_sell4)
  from new_order_callbacks [OF cb(3,4), of "Order 2 7 100 4 SELL 0 0"] b2
  have 2: "fst (process_new_order engine_empty (Order 2 7 100 4 SELL 0 0)) =
     [OrderCallback (Order 2 7 100 4 SELL 0 0) False]"
    by simp
  from new_order_callbacks [OF cb(1,2), of "Order 1 7 100 0 BUY 0 0"] b3 f
  have 3: "process_new_order engine_one_bid (Order 1 7 100 0 BUY 0 0) =
     ([OrderCallback (Order 1 7 100 0 BUY 0 0) True],
      engine_one_bid\<lparr>stats := (stats engine_one_bid)\<lparr>total_orders :=
                                total_orders (stats engine_one_bid) + 1\<rparr>\<rparr>)"
    by blast
  from cb(1,2) 1 2 b3 f 3 show ?thesis by blast
qed

text \<open>
  The claim as written has a validation failure surface through \<open>accepted = false\<close> or
  through unchanged counters. An order of quantity 0 (and with the id of a resting order)
  for a registered symbol gets \<open>accepted = true\<close>, and \<open>total_orders\<close> moves.
\<close>

theorem new_order_callbacks_counterexample:
  "order_callback_set engine_one_bid \<and> trade_callback_set engine_one_bid \<and>
   order_books engine_one_bid (symbol_id (Order 1 7 100 0 BUY 0 0)) = Some book_one_bid \<and>
   fails_validation book_one_bid (Order 1 7 100 0 BUY 0 0) \<and>
   fst (process_new_order engine_one_bid (Order 1 7 100 0 BUY 0 0)) =
     [OrderCallback (Order 1 7 100 0 BUY 0 0) True] \<and>
   total_orders (stats (snd (process_new_order engine_one_bid (Order 1 7 100 0 BUY 0 0)))) = 1 \<and>
   total_orders (stats engine_one_bid) = 0 \<and>
   stats (snd (process_new_order engine_one_bid (Order 1 7 100 0 BUY 0 0))) \<noteq>
     stats engine_one_bid"
proof -
  have a: "add_order book_one_bid (Order 1 7 100 0 BUY 0 0) = ([], book_one_bid)"
    by (simp add: add_order_def Order_def)
  have p: "process_new_order engine_one_bid (Order 1 7 100 0 BUY 0 0) =
     ([OrderCallback (Order 1 7 100 0 BUY 0 0) True],
      engine_one_bid\<lparr>stats := (stats engine_one_bid)\<lparr>total_orders := 1\<rparr>\<rparr>)"
    unfolding process_new_order_def
    by (simp add: a engine_one_bid_def engine_empty_def)
       (simp add: Order_def a)
  have f: "fails_validation book_one_bid (Order 1 7 100 0 BUY 0 0)"
    by (simp add: fails_validation_def Order_def)
  have t: "total_orders (stats engine_one_bid) = 0"
    by (simp add: engine_one_bid_def engine_empty_def)
  have "total_orders (stats (snd (process_new_order engine_one_bid (Order 1 7 100 0 BUY 0 0)))) \<noteq>
        total_orders (stats engine_one_bid)"
    unfolding p by (simp add: t)
  then have ne: "stats (snd (process_new_order engine_one_bid (Order 1 7 100 0 BUY 0 0))) \<noteq>
     stats engine_one_bid"
    by auto
  from p f t ne show ?thesis
    by (simp add: engine_one_bid_def engine_empty_def Order_def)
qed

section \<open>One pass of a matching loop\<close>

text \<open>
  The passes that do not end the loop: a level found empty is dropped; otherwise the
  incoming order \<open>inc\<close> trades with the front order \<open>rst\<close> of the best level, which
  is then filled (and leaves, the last of its level or not) or partially filled.
\<close>

lemma match_buy_iter_cases [consumes 1, case_names drop fill_last fill partial]:
  assumes "match_buy_iter b inc ts = Some (b', inc', ts')"
  obtains
    (drop) p l rest where
      "sell_levels b = (p, l) # rest" "lvl_orders l = []" "0 < quantity inc" "p \<le> price inc"
      "b' = b\<lparr>sell_levels := rest\<rparr>" "inc' = inc" "ts' = ts"
  | (fill_last) p l rest rst m where
      "sell_levels b = (p, l) # rest" "lvl_orders l = [rst]" "0 < quantity inc" "p \<le> price inc"
      "m = min (quantity inc) (quantity rst)" "quantity rst - m = 0"
      "b' = b\<lparr>next_trade_id := next_trade_id b + 1,
               order_map := (order_map b)(order_id rst := None), sell_levels := rest\<rparr>"
      "inc' = inc\<lparr>quantity := quantity inc - m\<rparr>"
      "ts' = ts @ [Trade (next_trade_id b) inc rst p m]"
  | (fill) p l rest rst q m where
      "sell_levels b = (p, l) # rest" "lvl_orders l = rst # q" "q \<noteq> []"
      "0 < quantity inc" "p \<le> price inc"
      "m = min (quantity inc) (quantity rst)" "quantity rst - m = 0"
      "b' = b\<lparr>next_trade_id := next_trade_id b + 1,
               order_map := (order_map b)(order_id rst := None),
               sell_levels := (p, l\<lparr>lvl_volume := lvl_volume l - m, lvl_orders := q\<rparr>) # rest\<rparr>"
      "inc' = inc\<lparr>quantity := quantity inc - m\<rparr>"
      "ts' = ts @ [Trade (next_trade_id b) inc rst p m]"
  | (partial) p l rest rst q m where
      "sell_levels b = (p, l) # rest" "lvl_orders l = rst # q"
      "0 < quantity inc" "p \<le> price inc"
      "m = min (quantity inc) (quantity rst)" "quantity rst - m \<noteq> 0"
      "b' = b\<lparr>next_trade_id := next_trade_id b + 1,
               order_map := (order_map b)(order_id rst \<mapsto> rst\<lparr>quantity := quantity rst - m\<rparr>),
               sell_levels := (p, l\<lparr>lvl_orders := rst\<lparr>quantity := quantity rst - m\<rparr> # q,
                                    lvl_volume := lvl_volume l - m\<rparr>) # rest\<rparr>"
      "inc' = inc\<lparr>quantity := quantity inc - m\<rparr>"
      "ts' = ts @ [Trade (next_trade_id b) inc rst p m]"
proof (cases "sell_levels b")
  case Nil
  with assms show ?thesis by (simp add: match_buy_iter_def split: if_splits)
next
  case (Cons kv rest)
  obtain p l where kv: "kv = (p, l)" by (cases kv)
  note lv = Cons [unfolded kv]
  from assms lv have pos: "0 < quantity inc" and le: "p \<le> price inc"
    by (auto simp: match_buy_iter_def split: if_splits)
  show ?thesis
  proof (cases "lvl_orders l")
    case Nil
    with assms lv pos le have "b' = b\<lparr>sell_levels := rest\<rparr> \<and> inc' = inc \<and> ts' = ts"
      by (simp add: match_buy_iter_def peek_front_def)
    with drop lv Nil pos le show ?thesis by blast
  next
    case (Cons rst q)
    define m where "m = min (quantity inc) (quantity rst)"
    note unf = match_buy_iter_def peek_front_def Let_def generate_trade_def
      remove_front_after_fill_def update_volume_after_partial_fill_def
      set_front_quantity_def level_empty_def
    show ?thesis
    proof (cases "quantity rst - m = 0")
      case True
      show ?thesis
      proof (cases "q = []")
        case True
        from assms lv Cons pos le \<open>quantity rst - m = 0\<close> True
        have "b' = b\<lparr>next_trade_id := next_trade_id b + 1,
               order_map := (order_map b)(order_id rst := None), sell_levels := rest\<rparr> \<and>
              inc' = inc\<lparr>quantity := quantity inc - m\<rparr> \<and>
              ts' = ts @ [Trade (next_trade_id b) inc rst p m]"
          by (simp add: unf m_def)
        with fill_last [of p l rest rst m] lv Cons True pos le m_def \<open>quantity rst - m = 0\<close>
        show ?thesis by blast
      next
        case False
        from assms lv Cons pos le \<open>quantity rst - m = 0\<close> False
        have "b' = b\<lparr>next_trade_id := next_trade_id b + 1,
               order_map := (order_map b)(order_id rst := None),
               sell_levels := (p, l\<lparr>lvl_volume := lvl_volume l - m, lvl_orders := q\<rparr>) # rest\<rparr> \<and>
              inc' = inc\<lparr>quantity := quantity inc - m\<rparr> \<and>
              ts' = ts @ [Trade (next_trade_id b) inc rst p m]"
          by (simp add: unf m_def)
        with fill [of p l rest rst q m] lv Cons False pos le m_def \<open>quantity rst - m = 0\<close>
        show ?thesis by blast
      qed
    next
      case False
      from assms lv Cons pos le False
      have "b' = b\<lparr>next_trade_id := next_trade_id b + 1,
               order_map := (order_map b)(order_id rst \<mapsto> rst\<lparr>quantity := quantity rst - m\<rparr>),
               sell_levels := (p, l\<lparr>lvl_orders := rst\<lparr>quantity := quantity rst - m\<rparr> # q,
                                    lvl_volume := lvl_volume l - m\<rparr>) # rest\<rparr> \<and>
              inc' = inc\<lparr>quantity := quantity inc - m\<rparr> \<and>
              ts' = ts @ [Trade (next_trade_id b) inc rst p m]"
        by (simp add: unf m_def)
      with partial [of p l rest rst q m] lv Cons pos le m_def False
      show ?thesis by blast
    qed
  qed
qed

lemma match_sell_iter_cases [consumes 1, case_names drop fill_last fill partial]:
  assumes "match_sell_iter b inc ts = Some (b', inc', ts')"
  obtains
    (drop) p l rest where
      "buy_levels b = (p, l) # rest" "lvl_orders l = []" "0 < quantity inc" "price inc \<le> p"
      "b' = b\<lparr>buy_levels := rest\<rparr>" "inc' = inc" "ts' = ts"
  | (fill_last) p l rest rst m where
      "buy_levels b = (p, l) # rest" "lvl_orders l = [rst]" "0 < quantity inc" "price inc \<le> p"
      "m = min (quantity inc) (quantity rst)" "quantity rst - m = 0"
      "b' = b\<lparr>next_trade_id := next_trade_id b + 1,
               order_map := (order_map b)(order_id rst := None), buy_levels := rest\<rparr>"
      "inc' = inc\<lparr>quantity := quantity inc - m\<rparr>"
      "ts' = ts @ [Trade (next_trade_id b) inc rst p m]"
  | (fill) p l rest rst q m where
      "buy_levels b = (p, l) # rest" "lvl_orders l = rst # q" "q \<noteq> []"
      "0 < quantity inc" "price inc \<le> p"
      "m = min (quantity inc) (quantity rst)" "quantity rst - m = 0"
      "b' = b\<lparr>next_trade_id := next_trade_id b + 1,
               order_map := (order_map b)(order_id rst := None),
               buy_levels := (p, l\<lparr>lvl_volume := lvl_volume l - m, lvl_orders := q\<rparr>) # rest\<rparr>"
      "inc' = inc\<lparr>quantity := quantity inc - m\<rparr>"
      "ts' = ts @ [Trade (next_trade_id b) inc rst p m]"
  | (partial) p l rest rst q m where
      "buy_levels b = (p, l) # rest" "lvl_orders l = rst # q"
      "0 < quantity inc" "price inc \<le> p"
      "m = min (quantity inc) (quantity rst)" "quantity rst - m \<noteq> 0"
      "b' = b\<lparr>next_trade_id := next_trade_id b + 1,
               order_map := (order_map b)(order_id rst \<mapsto> rst\<lparr>quantity := quantity rst - m\<rparr>),
               buy_levels := (p, l\<lparr>lvl_orders := rst\<lparr>quantity := quantity rst - m\<rparr> # q,
                                    lvl_volume := lvl_volume l - m\<rparr>) # rest\<rparr>"
      "inc' = inc\<lparr>quantity := quantity inc - m\<rparr>"
      "ts' = ts @ [Trade (next_trade_id b) inc rst p m]"
proof (cases "buy_levels b")
  case Nil
  with assms show ?thesis by (simp add: match_sell_iter_def split: if_splits)
next
  case (Cons kv rest)
  obtain p l where kv: "kv = (p, l)" by (cases kv)
  note lv = Cons [unfolded kv]
  from assms lv have pos: "0 < quantity inc" and le: "price inc \<le> p"
    by (auto simp: match_sell_iter_def split: if_splits)
  show ?thesis
  proof (cases "lvl_orders l")
    case Nil
    with assms lv pos le have "b' = b\<lparr>buy_levels := rest\<rparr> \<and> inc' = inc \<and> ts' = ts"
      by (simp add: match_sell_iter_def peek_front_def)
    with drop lv Nil pos le show ?thesis by blast
  next
    case (Cons rst q)
    define m where "m = min (quantity inc) (quantity rst)"
    note unf = match_sell_iter_def peek_front_def Let_def generate_trade_def
      remove_front_after_fill_def update_volume_after_partial_fill_def
      set_front_quantity_def level_empty_def
    show ?thesis
    proof (cases "quantity rst - m = 0")
      case True
      show ?thesis
      proof (cases "q = []")
        case True
        from assms lv Cons pos le \<open>quantity rst - m = 0\<close> True
        have "b' = b\<lparr>next_trade_id := next_trade_id b + 1,
               order_map := (order_map b)(order_id rst := None), buy_levels := rest\<rparr> \<and>
              inc' = inc\<lparr>quantity := quantity inc - m\<rparr> \<and>
              ts' = ts @ [Trade (next_trade_id b) inc rst p m]"
          by (simp add: unf m_def)
        with fill_last [of p l rest rst m] lv Cons True pos le m_def \<open>quantity rst - m = 0\<close>
        show ?thesis by blast
      next
        case False
        from assms lv Cons pos le \<open>quantity rst - m = 0\<close> False
        have "b' = b\<lparr>next_trade_id := next_trade_id b + 1,
               order_map := (order_map b)(order_id rst := None),
               buy_levels := (p, l\<lparr>lvl_volume := lvl_volume l - m, lvl_orders := q\<rparr>) # rest\<rparr> \<and>
              inc' = inc\<lparr>quantity := quantity inc - m\<rparr> \<and>
              ts' = ts @ [Trade (next_trade_id b) inc rst p m]"
          by (simp add: unf m_def)
        with fill [of p l rest rst q m] lv Cons False pos le m_def \<open>quantity rst - m = 0\<close>
        show ?thesis by blast
      qed
    next
      case False
      from assms lv Cons pos le False
      have "b' = b\<lparr>next_trade_id := next_trade_id b + 1,
               order_map := (order_map b)(order_id rst \<mapsto> rst\<lparr>quantity := quantity rst - m\<rparr>),
               buy_levels := (p, l\<lparr>lvl_orders := rst\<lparr>quantity := quantity rst - m\<rparr> # q,
                                    lvl_volume := lvl_volume l - m\<rparr>) # rest\<rparr> \<and>
              inc' = inc\<lparr>quantity := quantity inc - m\<rparr> \<and>
              ts' = ts @ [Trade (next_trade_id b) inc rst p m]"
        by (simp add: unf m_def)
      with partial [of p l rest rst q m] lv Cons pos le m_def False
      show ?thesis by blast
    qed
  qed
qed

section \<open>The trades of one call of a matching loop\<close>

lemma resting_Cons:
  "resting ((p, l) # kvs) = (\<lambda>ord. (p, order_id ord)) ` set (lvl_orders l) \<union> resting kvs"
  by (auto simp: resting_def)

lemma resting_key: "(p, oid) \<in> resting kvs \<Longrightarrow> p \<in> fst ` set kvs"
  by (force simp: resting_def)

lemma unat_sub_le: "(m::32 word) \<le> a \<Longrightarrow> unat (a - m) + unat m = unat a"
  by (simp add: unat_sub word_le_nat_alt)

lemma ordered_map_pass:
  assumes "ordered_map lt kvs" "map fst kvs1 = map fst kvs \<or> map fst kvs1 = tl (map fst kvs)"
  shows "ordered_map lt kvs1"
  using assms by (cases kvs) (auto simp: ordered_map_def)

lemma sorted_keys_hd:
  assumes "sorted_wrt lt ks" "ks1 = ks \<or> ks1 = tl ks" "k \<in> set ks1"
  shows "k = hd ks \<or> lt (hd ks) k"
proof (cases ks)
  case Nil
  with assms show ?thesis by simp
next
  case (Cons a rest)
  with assms(2,3) have "k = a \<or> k \<in> set rest" by auto
  moreover from assms(1) Cons have "\<forall>x\<in>set rest. lt a x" by simp
  ultimately have "k = a \<or> lt a k" by auto
  with Cons show ?thesis by simp
qed

lemma ordered_map_hd:
  assumes "ordered_map lt kvs" "map fst kvs1 = map fst kvs \<or> map fst kvs1 = tl (map fst kvs)"
    "k \<in> fst ` set kvs1"
  shows "k = hd (map fst kvs) \<or> lt (hd (map fst kvs)) k"
proof -
  from assms(3) have "k \<in> set (map fst kvs1)" by simp
  with assms(1,2) show ?thesis
    unfolding ordered_map_def by (rule sorted_keys_hd)
qed

lemma match_buy_iter_pass:
  assumes "match_buy_iter b inc ts = Some (b1, inc1, ts1)"
  shows "price inc1 = price inc \<and> order_id inc1 = order_id inc \<and>
         side inc1 = side inc \<and> buy_levels b1 = buy_levels b \<and>
         resting (sell_levels b1) \<subseteq> resting (sell_levels b) \<and>
         (map fst (sell_levels b1) = map fst (sell_levels b) \<or>
          map fst (sell_levels b1) = tl (map fst (sell_levels b))) \<and>
         (ts1 = ts \<and> quantity inc1 = quantity inc \<or>
          (\<exists>t. ts1 = ts @ [t] \<and> buy_trade_ok b inc t \<and>
               trade_price t = hd (map fst (sell_levels b)) \<and>
               unat (quantity inc1) + unat (trade_quantity t) = unat (quantity inc)))"
  using assms
proof (cases rule: match_buy_iter_cases)
  case (drop p l rest)
  then show ?thesis by (simp add: resting_Cons)
next
  case (fill_last p l rest rst m)
  from fill_last(5) have "m \<le> quantity inc" by simp
  then have "unat (quantity inc - m) + unat m = unat (quantity inc)"
    by (rule unat_sub_le)
  with fill_last(1-4,7-9) show ?thesis
    by (auto simp add: resting_Cons buy_trade_ok_def Trade_def)
next
  case (fill p l rest rst q m)
  from fill(6) have "m \<le> quantity inc" by simp
  then have "unat (quantity inc - m) + unat m = unat (quantity inc)"
    by (rule unat_sub_le)
  with fill(1-5,8-10) show ?thesis
    by (auto simp add: resting_Cons buy_trade_ok_def Trade_def)
next
  case (partial p l rest rst q m)
  from partial(5) have "m \<le> quantity inc" by simp
  then have "unat (quantity inc - m) + unat m = unat (quantity inc)"
    by (rule unat_sub_le)
  with partial(1-4,7-9) show ?thesis
    by (auto simp add: resting_Cons buy_trade_ok_def Trade_def)
qed

lemma buy_trade_ok_mono:
  assumes "buy_trade_ok b1 inc1 t" "resting (sell_levels b1) \<subseteq> resting (sell_levels b)"
    "price inc1 = price inc" "order_id inc1 = order_id inc"
  shows "buy_trade_ok b inc t"
  using assms by (auto simp: buy_trade_ok_def)

lemma match_buy_order_trades:
  assumes "match_buy_order b inc ts = (b', inc', ts')" and "ordered_map (<) (sell_levels b)"
  shows "\<exists>new. ts' = ts @ new \<and> (\<forall>t\<in>set new. buy_trade_ok b inc t) \<and>
           sum_list (map (\<lambda>t. unat (trade_quantity t)) new) + unat (quantity inc') =
             unat (quantity inc) \<and>
           sorted (map trade_price new)"
  using assms
proof (induction b inc ts arbitrary: b' inc' ts' rule: match_buy_order.induct)
  case (1 b inc ts)
  show ?case
  proof (cases "match_buy_iter b inc ts")
    case None
    with "1.prems" have "ts' = ts" "inc' = inc"
      by (simp_all add: match_buy_order_stop)
    then show ?thesis by simp
  next
    case (Some r)
    obtain b1 inc1 ts1 where r: "r = (b1, inc1, ts1)" by (cases r)
    note it = Some [unfolded r]
    note pass = match_buy_iter_pass [OF it]
    from "1.prems"(1) it have run: "match_buy_order b1 inc1 ts1 = (b', inc', ts')"
      by (simp add: match_buy_order_pass)
    from pass "1.prems"(2) have ord1: "ordered_map (<) (sell_levels b1)"
      by (blast intro: ordered_map_pass)
    from "1.IH" [OF Some r [symmetric] refl run ord1]
    obtain new1 where new1: "ts' = ts1 @ new1" "\<forall>t\<in>set new1. buy_trade_ok b1 inc1 t"
      "sum_list (map (\<lambda>t. unat (trade_quantity t)) new1) + unat (quantity inc') =
         unat (quantity inc1)"
      "sorted (map trade_price new1)"
      by blast
    from new1(2) pass have ok1: "\<forall>t\<in>set new1. buy_trade_ok b inc t"
      by (blast intro: buy_trade_ok_mono)
    from pass consider (same) "ts1 = ts" "quantity inc1 = quantity inc"
      | (trade) t where "ts1 = ts @ [t]" "buy_trade_ok b inc t"
          "trade_price t = hd (map fst (sell_levels b))"
          "unat (quantity inc1) + unat (trade_quantity t) = unat (quantity inc)"
      by blast
    then show ?thesis
    proof cases
      case same
      with new1 ok1 show ?thesis by simp
    next
      case trade
      have "\<forall>t1\<in>set new1. trade_price t \<le> trade_price t1"
      proof
        fix t1 assume "t1 \<in> set new1"
        with new1(2) have "trade_price t1 \<in> fst ` set (sell_levels b1)"
          by (auto simp: buy_trade_ok_def dest: resting_key)
        moreover from pass
        have "map fst (sell_levels b1) = map fst (sell_levels b) \<or>
              map fst (sell_levels b1) = tl (map fst (sell_levels b))"
          by blast
        ultimately
        have "trade_price t1 = hd (map fst (sell_levels b)) \<or>
              hd (map fst (sell_levels b)) < trade_price t1"
          using ordered_map_hd [OF "1.prems"(2)] by blast
        with trade(3) show "trade_price t \<le> trade_price t1"
          by auto
      qed
      with new1(4) have "sorted (map trade_price (t # new1))" by simp
      moreover from trade(2) ok1 have "\<forall>u\<in>set (t # new1). buy_trade_ok b inc u" by simp
      moreover from trade(4) new1(3)
      have "sum_list (map (\<lambda>t. unat (trade_quantity t)) (t # new1)) + unat (quantity inc') =
              unat (quantity inc)" by simp
      moreover from trade(1) new1(1) have "ts' = ts @ (t # new1)" by simp
      ultimately show ?thesis by blast
    qed
  qed
qed

lemma match_sell_iter_pass:
  assumes "match_sell_iter b inc ts = Some (b1, inc1, ts1)"
  shows "price inc1 = price inc \<and> order_id inc1 = order_id inc \<and>
         side inc1 = side inc \<and> sell_levels b1 = sell_levels b \<and>
         resting (buy_levels b1) \<subseteq> resting (buy_levels b) \<and>
         (map fst (buy_levels b1) = map fst (buy_levels b) \<or>
          map fst (buy_levels b1) = tl (map fst (buy_levels b))) \<and>
         (ts1 = ts \<and> quantity inc1 = quantity inc \<or>
          (\<exists>t. ts1 = ts @ [t] \<and> sell_trade_ok b inc t \<and>
               trade_price t = hd (map fst (buy_levels b)) \<and>
               unat (quantity inc1) + unat (trade_quantity t) = unat (quantity inc)))"
  using assms
proof (cases rule: match_sell_iter_cases)
  case (drop p l rest)
  then show ?thesis by (simp add: resting_Cons)
next
  case (fill_last p l rest rst m)
  from fill_last(5) have "m \<le> quantity inc" by simp
  then have "unat (quantity inc - m) + unat m = unat (quantity inc)"
    by (rule unat_sub_le)
  with fill_last(1-4,7-9) show ?thesis
    by (auto simp add: resting_Cons sell_trade_ok_def Trade_def)
next
  case (fill p l rest rst q m)
  from fill(6) have "m \<le> quantity inc" by simp
  then have "unat (quantity inc - m) + unat m = unat (quantity inc)"
    by (rule unat_sub_le)
  with fill(1-5,8-10) show ?thesis
    by (auto simp add: resting_Cons sell_trade_ok_def Trade_def)
next
  case (partial p l rest rst q m)
  from partial(5) have "m \<le> quantity inc" by simp
  then have "unat (quantity inc - m) + unat m = unat (quantity inc)"
    by (rule unat_sub_le)
  with partial(1-4,7-9) show ?thesis
    by (auto simp add: resting_Cons sell_trade_ok_def Trade_def)
qed

lemma sell_trade_ok_mono:
  assumes "sell_trade_ok b1 inc1 t" "resting (buy_levels b1) \<subseteq> resting (buy_levels b)"
    "price inc1 = price inc" "order_id inc1 = order_id inc"
  shows "sell_trade_ok b inc t"
  using assms by (auto simp: sell_trade_ok_def)

lemma match_sell_order_trades:
  assumes "match_sell_order b inc ts = (b', inc', ts')" and "ordered_map (>) (buy_levels b)"
  shows "\<exists>new. ts' = ts @ new \<and> (\<forall>t\<in>set new. sell_trade_ok b inc t) \<and>
           sum_list (map (\<lambda>t. unat (trade_quantity t)) new) + unat (quantity inc') =
             unat (quantity inc) \<and>
           sorted_wrt (\<ge>) (map trade_price new)"
  using assms
proof (induction b inc ts arbitrary: b' inc' ts' rule: match_sell_order.induct)
  case (1 b inc ts)
  show ?case
  proof (cases "match_sell_iter b inc ts")
    case None
    with "1.prems" have "ts' = ts" "inc' = inc"
      by (simp_all add: match_sell_order_stop)
    then show ?thesis by simp
  next
    case (Some r)
    obtain b1 inc1 ts1 where r: "r = (b1, inc1, ts1)" by (cases r)
    note it = Some [unfolded r]
    note pass = match_sell_iter_pass [OF it]
    from "1.prems"(1) it have run: "match_sell_order b1 inc1 ts1 = (b', inc', ts')"
      by (simp add: match_sell_order_pass)
    from pass "1.prems"(2) have ord1: "ordered_map (>) (buy_levels b1)"
      by (blast intro: ordered_map_pass)
    from "1.IH" [OF Some r [symmetric] refl run ord1]
    obtain new1 where new1: "ts' = ts1 @ new1" "\<forall>t\<in>set new1. sell_trade_ok b1 inc1 t"
      "sum_list (map (\<lambda>t. unat (trade_quantity t)) new1) + unat (quantity inc') =
         unat (quantity inc1)"
      "sorted_wrt (\<ge>) (map trade_price new1)"
      by blast
    from new1(2) pass have ok1: "\<forall>t\<in>set new1. sell_trade_ok b inc t"
      by (blast intro: sell_trade_ok_mono)
    from pass consider (same) "ts1 = ts" "quantity inc1 = quantity inc"
      | (trade) t where "ts1 = ts @ [t]" "sell_trade_ok b inc t"
          "trade_price t = hd (map fst (buy_levels b))"
          "unat (quantity inc1) + unat (trade_quantity t) = unat (quantity inc)"
      by blast
    then show ?thesis
    proof cases
      case same
      with new1 ok1 show ?thesis by simp
    next
      case trade
      have "\<forall>t1\<in>set new1. trade_price t1 \<le> trade_price t"
      proof
        fix t1 assume "t1 \<in> set new1"
        with new1(2) have "trade_price t1 \<in> fst ` set (buy_levels b1)"
          by (auto simp: sell_trade_ok_def dest: resting_key)
        moreover from pass
        have "map fst (buy_levels b1) = map fst (buy_levels b) \<or>
              map fst (buy_levels b1) = tl (map fst (buy_levels b))"
          by blast
        ultimately
        have "trade_price t1 = hd (map fst (buy_levels b)) \<or>
              trade_price t1 < hd (map fst (buy_levels b))"
          using ordered_map_hd [OF "1.prems"(2)] by blast
        with trade(3) show "trade_price t1 \<le> trade_price t"
          by auto
      qed
      with new1(4) have "sorted_wrt (\<ge>) (map trade_price (t # new1))" by simp
      moreover from trade(2) ok1 have "\<forall>u\<in>set (t # new1). sell_trade_ok b inc u" by simp
      moreover from trade(4) new1(3)
      have "sum_list (map (\<lambda>t. unat (trade_quantity t)) (t # new1)) + unat (quantity inc') =
              unat (quantity inc)" by simp
      moreover from trade(1) new1(1) have "ts' = ts @ (t # new1)" by simp
      ultimately show ?thesis by blast
    qed
  qed
qed

section \<open>Invariants of the loops, and the maps\<close>

lemma match_buy_order_inv:
  assumes "match_buy_order b inc ts = (b', inc', ts')" and "P b inc ts"
    and "\<And>b inc ts b1 inc1 ts1.
           P b inc ts \<Longrightarrow> match_buy_iter b inc ts = Some (b1, inc1, ts1) \<Longrightarrow> P b1 inc1 ts1"
  shows "P b' inc' ts' \<and> match_buy_iter b' inc' ts' = None"
  using assms(1,2)
proof (induction b inc ts rule: match_buy_order.induct)
  case (1 b inc ts)
  show ?case
  proof (cases "match_buy_iter b inc ts")
    case None
    with "1.prems" show ?thesis by (simp add: match_buy_order_stop)
  next
    case (Some r)
    obtain b1 inc1 ts1 where r: "r = (b1, inc1, ts1)" by (cases r)
    note it = Some [unfolded r]
    from "1.prems"(1) it have run: "match_buy_order b1 inc1 ts1 = (b', inc', ts')"
      by (simp add: match_buy_order_pass)
    from assms(3) [OF "1.prems"(2) it] have "P b1 inc1 ts1" .
    from "1.IH" [OF Some r [symmetric] refl run this] show ?thesis .
  qed
qed

lemma match_sell_order_inv:
  assumes "match_sell_order b inc ts = (b', inc', ts')" and "P b inc ts"
    and "\<And>b inc ts b1 inc1 ts1.
           P b inc ts \<Longrightarrow> match_sell_iter b inc ts = Some (b1, inc1, ts1) \<Longrightarrow> P b1 inc1 ts1"
  shows "P b' inc' ts' \<and> match_sell_iter b' inc' ts' = None"
  using assms(1,2)
proof (induction b inc ts rule: match_sell_order.induct)
  case (1 b inc ts)
  show ?case
  proof (cases "match_sell_iter b inc ts")
    case None
    with "1.prems" show ?thesis by (simp add: match_sell_order_stop)
  next
    case (Some r)
    obtain b1 inc1 ts1 where r: "r = (b1, inc1, ts1)" by (cases r)
    note it = Some [unfolded r]
    from "1.prems"(1) it have run: "match_sell_order b1 inc1 ts1 = (b', inc', ts')"
      by (simp add: match_sell_order_pass)
    from assms(3) [OF "1.prems"(2) it] have "P b1 inc1 ts1" .
    from "1.IH" [OF Some r [symmetric] refl run this] show ?thesis .
  qed
qed

lemma match_buy_iter_None:
  "match_buy_iter b inc ts = None \<longleftrightarrow>
     (quantity inc = 0 \<or> sell_levels b = [] \<or> price inc < fst (hd (sell_levels b)))"
  by (auto simp: match_buy_iter_def peek_front_def Let_def generate_trade_def word_gt_0
        split: list.splits option.splits prod.splits)

lemma match_sell_iter_None:
  "match_sell_iter b inc ts = None \<longleftrightarrow>
     (quantity inc = 0 \<or> buy_levels b = [] \<or> fst (hd (buy_levels b)) < price inc)"
  by (auto simp: match_sell_iter_def peek_front_def Let_def generate_trade_def word_gt_0
        split: list.splits option.splits prod.splits)

subsection \<open>The price-ordered maps\<close>

lemma ordered_map_distinct:
  assumes "ordered_map lt kvs" "lt = (<) \<or> lt = (>)"
  shows "distinct (map fst kvs)"
  using assms unfolding ordered_map_def
  by (induction kvs) auto

lemma map_find_in: "map_find k kvs = Some v \<Longrightarrow> (k, v) \<in> set kvs"
  by (simp add: map_find_def map_of_SomeD)

lemma map_find_ordered:
  assumes "ordered_map lt kvs" "lt = (<) \<or> lt = (>)" "(k, v) \<in> set kvs"
  shows "map_find k kvs = Some v"
  using ordered_map_distinct [OF assms(1,2)] assms(3)
  by (simp add: map_find_def)

lemma map_find_None: "map_find k kvs = None \<longleftrightarrow> k \<notin> fst ` set kvs"
  by (simp add: map_find_def map_of_eq_None_iff)

lemma set_map_insert_less:
  "sorted_wrt (<) (map fst kvs) \<Longrightarrow>
   set (map_insert (<) k v kvs) = insert (k, v) {kv \<in> set kvs. fst kv \<noteq> k} \<and>
   sorted_wrt (<) (map fst (map_insert (<) k v kvs))"
proof (induction kvs)
  case Nil
  then show ?case by simp
next
  case (Cons a kvs)
  obtain k' v' where a: "a = (k', v')" by (cases a)
  from Cons.prems a have s: "sorted_wrt (<) (map fst kvs)" and lt: "\<forall>x\<in>set kvs. k' < fst x"
    by auto
  note IH = Cons.IH [OF s]
  consider "k < k'" | "k' < k" | "k = k'" by linarith
  then show ?case
  proof cases
    case 1
    with lt have "\<forall>x\<in>set kvs. fst x \<noteq> k" by auto
    with 1 a Cons.prems show ?thesis by auto
  next
    case 2
    with IH a lt show ?thesis by auto
  next
    case 3
    with lt have "\<forall>x\<in>set kvs. fst x \<noteq> k" by auto
    with 3 a Cons.prems show ?thesis by auto
  qed
qed

lemma set_map_insert_greater:
  "sorted_wrt (>) (map fst kvs) \<Longrightarrow>
   set (map_insert (>) k v kvs) = insert (k, v) {kv \<in> set kvs. fst kv \<noteq> k} \<and>
   sorted_wrt (>) (map fst (map_insert (>) k v kvs))"
proof (induction kvs)
  case Nil
  then show ?case by simp
next
  case (Cons a kvs)
  obtain k' v' where a: "a = (k', v')" by (cases a)
  from Cons.prems a have s: "sorted_wrt (>) (map fst kvs)" and lt: "\<forall>x\<in>set kvs. k' > fst x"
    by auto
  note IH = Cons.IH [OF s]
  consider "k > k'" | "k' > k" | "k = k'" by linarith
  then show ?case
  proof cases
    case 1
    with lt have "\<forall>x\<in>set kvs. fst x \<noteq> k" by auto
    with 1 a Cons.prems show ?thesis by auto
  next
    case 2
    with IH a lt show ?thesis by auto
  next
    case 3
    with lt have "\<forall>x\<in>set kvs. fst x \<noteq> k" by auto
    with 3 a Cons.prems show ?thesis by auto
  qed
qed

lemma set_map_insert:
  assumes "ordered_map lt kvs" "lt = (<) \<or> lt = (>)"
  shows "set (map_insert lt k v kvs) = insert (k, v) {kv \<in> set kvs. fst kv \<noteq> k}"
  using assms set_map_insert_less [of kvs k v] set_map_insert_greater [of kvs k v]
  unfolding ordered_map_def by blast

lemma ordered_map_insert:
  assumes "ordered_map lt kvs" "lt = (<) \<or> lt = (>)"
  shows "ordered_map lt (map_insert lt k v kvs)"
  using assms set_map_insert_less [of kvs k v] set_map_insert_greater [of kvs k v]
  unfolding ordered_map_def by blast

lemma set_map_erase: "set (map_erase k kvs) = {kv \<in> set kvs. fst kv \<noteq> k}"
  by (auto simp: map_erase_def)

lemma ordered_map_erase: "ordered_map lt kvs \<Longrightarrow> ordered_map lt (map_erase k kvs)"
  unfolding ordered_map_def map_erase_def
  by (induction kvs) auto

lemma keys_map_assign: "map fst (map_assign k v kvs) = map fst kvs"
  by (induction kvs) (auto simp: map_assign_def)

lemma set_map_assign:
  "k \<in> fst ` set kvs \<Longrightarrow>
   set (map_assign k v kvs) = insert (k, v) {kv \<in> set kvs. fst kv \<noteq> k}"
  by (induction kvs) (auto simp: map_assign_def)

lemma ordered_map_assign: "ordered_map lt kvs \<Longrightarrow> ordered_map lt (map_assign k v kvs)"
  by (simp add: ordered_map_def keys_map_assign)

section \<open>The prices of a book stay ordered and uncrossed\<close>

lemma keys_pass_subset:
  fixes kvs :: "('k \<times> 'v) list"
  assumes "map fst kvs1 = map fst kvs \<or> map fst kvs1 = tl (map fst kvs)"
  shows "fst ` set kvs1 \<subseteq> fst ` set kvs"
proof -
  have t: "set (tl ks) \<subseteq> set ks" for ks :: "'k list"
    by (cases ks) auto
  from assms show ?thesis
  proof
    assume "map fst kvs1 = map fst kvs"
    then have "set (map fst kvs1) = set (map fst kvs)" by (rule arg_cong)
    then show ?thesis by simp
  next
    assume "map fst kvs1 = tl (map fst kvs)"
    then have "set (map fst kvs1) = set (tl (map fst kvs))" by (rule arg_cong)
    with t [of "map fst kvs"] show ?thesis by simp
  qed
qed

lemma price_inv_buy_pass:
  assumes "price_inv b" "match_buy_iter b inc ts = Some (b1, inc1, ts1)"
  shows "price_inv b1"
proof -
  note pass = match_buy_iter_pass [OF assms(2)]
  from pass have keys: "map fst (sell_levels b1) = map fst (sell_levels b) \<or>
      map fst (sell_levels b1) = tl (map fst (sell_levels b))" by blast
  from pass have same: "buy_levels b1 = buy_levels b" by blast
  from assms(1) keys have "ordered_map (<) (sell_levels b1)"
    unfolding price_inv_def by (blast intro: ordered_map_pass)
  moreover from keys_pass_subset [OF keys] assms(1)
  have "\<forall>bp\<in>fst ` set (buy_levels b). \<forall>ap\<in>fst ` set (sell_levels b1). bp < ap"
    unfolding price_inv_def by blast
  ultimately show ?thesis using assms(1) same
    by (simp add: price_inv_def)
qed

lemma price_inv_sell_pass:
  assumes "price_inv b" "match_sell_iter b inc ts = Some (b1, inc1, ts1)"
  shows "price_inv b1"
proof -
  note pass = match_sell_iter_pass [OF assms(2)]
  from pass have keys: "map fst (buy_levels b1) = map fst (buy_levels b) \<or>
      map fst (buy_levels b1) = tl (map fst (buy_levels b))" by blast
  from pass have same: "sell_levels b1 = sell_levels b" by blast
  from assms(1) keys have "ordered_map (>) (buy_levels b1)"
    unfolding price_inv_def by (blast intro: ordered_map_pass)
  moreover from keys_pass_subset [OF keys] assms(1)
  have "\<forall>bp\<in>fst ` set (buy_levels b1). \<forall>ap\<in>fst ` set (sell_levels b). bp < ap"
    unfolding price_inv_def by blast
  ultimately show ?thesis using assms(1) same
    by (simp add: price_inv_def)
qed

text \<open>What stays of the incoming order through a loop.\<close>

lemma match_buy_order_keeps:
  assumes "match_buy_order b inc ts = (b', inc', ts')"
  shows "price inc' = price inc \<and> order_id inc' = order_id inc \<and> side inc' = side inc \<and>
         buy_levels b' = buy_levels b"
proof -
  have "(price inc' = price inc \<and> order_id inc' = order_id inc \<and> side inc' = side inc \<and>
         buy_levels b' = buy_levels b) \<and> match_buy_iter b' inc' ts' = None"
    by (rule match_buy_order_inv [OF assms,
          where P = "\<lambda>b1 inc1 ts1. price inc1 = price inc \<and> order_id inc1 = order_id inc \<and>
                       side inc1 = side inc \<and> buy_levels b1 = buy_levels b"])
       (auto dest: match_buy_iter_pass)
  then show ?thesis by blast
qed

lemma match_sell_order_keeps:
  assumes "match_sell_order b inc ts = (b', inc', ts')"
  shows "price inc' = price inc \<and> order_id inc' = order_id inc \<and> side inc' = side inc \<and>
         sell_levels b' = sell_levels b"
proof -
  have "(price inc' = price inc \<and> order_id inc' = order_id inc \<and> side inc' = side inc \<and>
         sell_levels b' = sell_levels b) \<and> match_sell_iter b' inc' ts' = None"
    by (rule match_sell_order_inv [OF assms,
          where P = "\<lambda>b1 inc1 ts1. price inc1 = price inc \<and> order_id inc1 = order_id inc \<and>
                       side inc1 = side inc \<and> sell_levels b1 = sell_levels b"])
       (auto dest: match_sell_iter_pass)
  then show ?thesis by blast
qed

lemma price_inv_match_buy:
  assumes "match_buy_order b inc ts = (b', inc', ts')" "price_inv b"
  shows "price_inv b' \<and> match_buy_iter b' inc' ts' = None"
  by (rule match_buy_order_inv [OF assms(1), where P = "\<lambda>b1 inc1 ts1. price_inv b1"])
     (auto intro: assms(2) price_inv_buy_pass)

lemma price_inv_match_sell:
  assumes "match_sell_order b inc ts = (b', inc', ts')" "price_inv b"
  shows "price_inv b' \<and> match_sell_iter b' inc' ts' = None"
  by (rule match_sell_order_inv [OF assms(1), where P = "\<lambda>b1 inc1 ts1. price_inv b1"])
     (auto intro: assms(2) price_inv_sell_pass)

lemma ordered_less_hd:
  assumes "ordered_map (<) kvs" "kvs = [] \<or> k < fst (hd kvs)" "a \<in> fst ` set kvs"
  shows "k < a"
  using assms unfolding ordered_map_def by (cases kvs) auto

lemma ordered_greater_hd:
  assumes "ordered_map (>) kvs" "kvs = [] \<or> fst (hd kvs) < k" "a \<in> fst ` set kvs"
  shows "a < k"
  using assms unfolding ordered_map_def by (cases kvs) auto

lemma keys_map_insert:
  assumes "ordered_map lt kvs" "lt = (<) \<or> lt = (>)"
  shows "fst ` set (map_insert lt k v kvs) = insert k (fst ` set kvs)"
  unfolding set_map_insert [OF assms] by force

lemma price_inv_add_to_book:
  assumes "price_inv b"
    and "side ord = BUY \<Longrightarrow> sell_levels b = [] \<or> price ord < fst (hd (sell_levels b))"
    and "side ord \<noteq> BUY \<Longrightarrow> buy_levels b = [] \<or> fst (hd (buy_levels b)) < price ord"
  shows "price_inv (add_to_book b ord)"
proof (cases "side ord = BUY")
  case True
  from assms(1) have ob: "ordered_map (>) (buy_levels b)" and os: "ordered_map (<) (sell_levels b)"
    and un: "\<forall>bp\<in>fst ` set (buy_levels b). \<forall>ap\<in>fst ` set (sell_levels b). bp < ap"
    by (simp_all add: price_inv_def)
  have lo: "\<forall>ap\<in>fst ` set (sell_levels b). price ord < ap"
    using ordered_less_hd [OF os assms(2) [OF True]] by blast
  show ?thesis
    using True ob os un lo
    by (simp add: add_to_book_def Let_def price_inv_def ordered_map_insert keys_map_insert)
next
  case False
  from assms(1) have ob: "ordered_map (>) (buy_levels b)" and os: "ordered_map (<) (sell_levels b)"
    and un: "\<forall>bp\<in>fst ` set (buy_levels b). \<forall>ap\<in>fst ` set (sell_levels b). bp < ap"
    by (simp_all add: price_inv_def)
  have hi: "\<forall>bp\<in>fst ` set (buy_levels b). bp < price ord"
    using ordered_greater_hd [OF ob assms(3) [OF False]] by blast
  show ?thesis
    using False ob os un hi
    by (simp add: add_to_book_def Let_def price_inv_def ordered_map_insert keys_map_insert)
qed

lemma price_inv_add_order:
  assumes "price_inv b"
  shows "price_inv (snd (add_order b ord))"
proof (cases "fails_validation b ord")
  case True
  then have "add_order b ord = ([], b)"
    by (auto simp: add_order_def fails_validation_def)
  with assms show ?thesis by simp
next
  case False
  then have ok: "quantity ord \<noteq> 0" "\<not> price ord \<le> 0" "order_map b (order_id ord) = None"
    by (auto simp: fails_validation_def)
  show ?thesis
  proof (cases "side ord = BUY")
    case True
    obtain b1 inc1 ts1 where m: "match_buy_order b ord [] = (b1, inc1, ts1)"
      by (cases "match_buy_order b ord []")
    from price_inv_match_buy [OF m assms]
    have inv1: "price_inv b1" and stop: "match_buy_iter b1 inc1 ts1 = None" by blast+
    from match_buy_order_keeps [OF m] True
    have keep: "price inc1 = price ord" "side inc1 = BUY" by simp_all
    have "price_inv (add_to_book b1 inc1)" if "0 < quantity inc1"
    proof (rule price_inv_add_to_book [OF inv1])
      from stop that keep
      show "sell_levels b1 = [] \<or> price inc1 < fst (hd (sell_levels b1))"
        by (simp add: match_buy_iter_None word_gt_0)
    next
      assume "side inc1 \<noteq> BUY"
      with keep show "buy_levels b1 = [] \<or> fst (hd (buy_levels b1)) < price inc1" by simp
    qed
    with inv1 m ok True show ?thesis
      by (simp add: add_order_def)
  next
    case False
    obtain b1 inc1 ts1 where m: "match_sell_order b ord [] = (b1, inc1, ts1)"
      by (cases "match_sell_order b ord []")
    from price_inv_match_sell [OF m assms]
    have inv1: "price_inv b1" and stop: "match_sell_iter b1 inc1 ts1 = None" by blast+
    from match_sell_order_keeps [OF m] False
    have keep: "price inc1 = price ord" "side inc1 \<noteq> BUY" by simp_all
    have "price_inv (add_to_book b1 inc1)" if "0 < quantity inc1"
    proof (rule price_inv_add_to_book [OF inv1])
      assume "side inc1 = BUY"
      with keep show "sell_levels b1 = [] \<or> price inc1 < fst (hd (sell_levels b1))" by simp
    next
      from stop that keep
      show "buy_levels b1 = [] \<or> fst (hd (buy_levels b1)) < price inc1"
        by (simp add: match_sell_iter_None word_gt_0)
    qed
    with inv1 m ok False show ?thesis
      by (simp add: add_order_def)
  qed
qed

section \<open>Cancelling, and the reachable books\<close>

lemma cancel_order_eq:
  assumes "order_map b oid = Some ord"
  shows "cancel_order b oid =
           (True,
            if side ord = BUY
            then b\<lparr>order_map := (order_map b)(oid := None),
                   buy_levels := cancel_levels ord oid (buy_levels b)\<rparr>
            else b\<lparr>order_map := (order_map b)(oid := None),
                   sell_levels := cancel_levels ord oid (sell_levels b)\<rparr>)"
  using assms
  by (simp add: cancel_order_def cancel_levels_def Let_def split: option.splits)

lemma remove_order_loop_eq:
  "remove_order_loop oid xs temp vol found =
     (temp @ filter (\<lambda>ord. order_id ord \<noteq> oid) xs,
      foldl (\<lambda>v ord. v - quantity ord) vol (filter (\<lambda>ord. order_id ord = oid) xs),
      found \<or> (\<exists>ord\<in>set xs. order_id ord = oid))"
  by (induction xs arbitrary: temp vol found) auto

lemma remove_order_eq:
  "remove_order l oid =
     (\<exists>ord\<in>set (lvl_orders l). order_id ord = oid,
      l\<lparr>lvl_orders := filter (\<lambda>ord. order_id ord \<noteq> oid) (lvl_orders l),
        lvl_volume := foldl (\<lambda>v ord. v - quantity ord) (lvl_volume l)
                        (filter (\<lambda>ord. order_id ord = oid) (lvl_orders l))\<rparr>)"
  by (simp add: remove_order_def remove_order_loop_eq)

lemma ordered_cancel_levels:
  "ordered_map lt kvs \<Longrightarrow> ordered_map lt (cancel_levels ord oid kvs)"
  by (simp add: cancel_levels_def Let_def ordered_map_erase ordered_map_assign
        split: option.splits)

lemma keys_cancel_levels: "fst ` set (cancel_levels ord oid kvs) \<subseteq> fst ` set kvs"
proof -
  have "fst ` set (map_assign k v kvs) = fst ` set kvs" for k v
    using keys_map_assign [of k v kvs] by (metis list.set_map)
  then show ?thesis
    by (auto simp: cancel_levels_def Let_def set_map_erase split: option.splits)
qed

lemma price_inv_subset:
  assumes "price_inv b"
    and "ordered_map (>) (buy_levels b')" "fst ` set (buy_levels b') \<subseteq> fst ` set (buy_levels b)"
    and "ordered_map (<) (sell_levels b')" "fst ` set (sell_levels b') \<subseteq> fst ` set (sell_levels b)"
  shows "price_inv b'"
  using assms unfolding price_inv_def by blast

lemma price_inv_cancel_order:
  assumes "price_inv b"
  shows "price_inv (snd (cancel_order b oid))"
proof (cases "order_map b oid")
  case None
  with assms show ?thesis by (simp add: cancel_order_def)
next
  case (Some ord)
  from assms have ob: "ordered_map (>) (buy_levels b)" and os: "ordered_map (<) (sell_levels b)"
    by (simp_all add: price_inv_def)
  show ?thesis
  proof (rule price_inv_subset [OF assms])
    show "ordered_map (>) (buy_levels (snd (cancel_order b oid)))"
      by (simp add: cancel_order_eq [OF Some] ob ordered_cancel_levels)
    show "ordered_map (<) (sell_levels (snd (cancel_order b oid)))"
      by (simp add: cancel_order_eq [OF Some] os ordered_cancel_levels)
    show "fst ` set (buy_levels (snd (cancel_order b oid))) \<subseteq> fst ` set (buy_levels b)"
      using keys_cancel_levels [of ord oid "buy_levels b"]
      by (simp add: cancel_order_eq [OF Some])
    show "fst ` set (sell_levels (snd (cancel_order b oid))) \<subseteq> fst ` set (sell_levels b)"
      using keys_cancel_levels [of ord oid "sell_levels b"]
      by (simp add: cancel_order_eq [OF Some])
  qed
qed

lemma price_inv_modify_order:
  assumes "price_inv b"
  shows "price_inv (snd (modify_order b now oid new_price new_quantity))"
proof (cases "order_map b oid")
  case None
  with assms show ?thesis by (simp add: modify_order_def)
next
  case (Some old)
  obtain c b1 where c: "cancel_order b oid = (c, b1)" by (cases "cancel_order b oid")
  from price_inv_cancel_order [OF assms, of oid] c have "price_inv b1" by simp
  with Some c show ?thesis
    by (cases c) (simp_all add: modify_order_def Let_def price_inv_add_order)
qed

lemma price_inv_create: "price_inv (create_order_book symbol)"
  by (simp add: price_inv_def create_order_book_def ordered_map_def)

lemma reachable_price_inv: "reachable b \<Longrightarrow> price_inv b"
  by (induction rule: reachable.induct)
     (simp_all add: price_inv_create price_inv_add_order price_inv_cancel_order
        price_inv_modify_order)


section \<open>Bids stay below asks\<close>

text \<open>
  Claim C2. In every book that \<open>add_order\<close>, \<open>cancel_order\<close> and \<open>modify_order\<close> produce
  from a new one, when \<open>best_bid\<close> and \<open>best_ask\<close> both return a price, the bid is
  below the ask.
\<close>

theorem best_bid_below_best_ask:
  assumes "reachable b" and "best_bid b = Some bid" and "best_ask b = Some ask"
  shows "bid < ask"
proof -
  from assms(2) have "bid \<in> fst ` set (buy_levels b)"
    by (auto simp: best_bid_def split: list.splits)
  moreover from assms(3) have "ask \<in> fst ` set (sell_levels b)"
    by (auto simp: best_ask_def split: list.splits)
  moreover from reachable_price_inv [OF assms(1)]
  have "\<forall>bp\<in>fst ` set (buy_levels b). \<forall>ap\<in>fst ` set (sell_levels b). bp < ap"
    by (simp add: price_inv_def)
  ultimately show ?thesis by blast
qed

theorem best_bid_below_best_ask_witness:
  "reachable book_two_sided \<and> best_bid book_two_sided = Some 100 \<and>
   best_ask book_two_sided = Some 101 \<and> (100::int) < 101"
proof -
  have r: "reachable book_two_sided"
    unfolding book_two_sided_def book_one_bid_def
    by (intro reachable.add reachable.init)
  have b: "best_bid book_two_sided = Some 100" and a: "best_ask book_two_sided = Some 101"
    by (simp_all add: book_two_sided_eq best_bid_def best_ask_def)
  from best_bid_below_best_ask [OF r b a] r b a show ?thesis by simp
qed

section \<open>The levels agree with the index\<close>

lemma side_inv_Cons:
  "side_inv s om ((p, l) # kvs) \<longleftrightarrow> level_inv s om p l \<and> side_inv s om kvs"
  by (simp add: side_inv_def)

lemma side_inv_Nil: "side_inv s om []"
  by (simp add: side_inv_def)

lemma side_inv_level: "side_inv s om kvs \<Longrightarrow> (p, l) \<in> set kvs \<Longrightarrow> level_inv s om p l"
  by (force simp: side_inv_def)

lemma resting_ids:
  "i \<in> snd ` resting kvs \<longleftrightarrow> (\<exists>p l ord. (p, l) \<in> set kvs \<and> ord \<in> set (lvl_orders l) \<and> order_id ord = i)"
  by (force simp: resting_def)

text \<open>An id that rests on a side is in the index, with an order of that side at the level's key.\<close>

lemma side_inv_resting:
  assumes "side_inv s om kvs" "(p, i) \<in> resting kvs"
  shows "\<exists>ord. om i = Some ord \<and> price ord = p \<and> side ord = s \<and> order_id ord = i"
proof -
  from assms(2) obtain l ord where "(p, l) \<in> set kvs" "ord \<in> set (lvl_orders l)" "order_id ord = i"
    by (auto simp: resting_def)
  with side_inv_level [OF assms(1) this(1)] show ?thesis
    by (auto simp: level_inv_def)
qed

lemma level_inv_frame:
  assumes "level_inv s om p l" "\<forall>ord\<in>set (lvl_orders l). om' (order_id ord) = om (order_id ord)"
  shows "level_inv s om' p l"
  using assms by (simp add: level_inv_def)

lemma side_inv_frame:
  assumes "side_inv s om kvs" "\<forall>i\<in>snd ` resting kvs. om' i = om i"
  shows "side_inv s om' kvs"
  unfolding side_inv_def
proof
  fix kv assume kv: "kv \<in> set kvs"
  obtain p l where pl: "kv = (p, l)" by (cases kv)
  from assms(1) kv pl have li: "level_inv s om p l" by (auto dest: side_inv_level)
  have "\<forall>ord\<in>set (lvl_orders l). om' (order_id ord) = om (order_id ord)"
  proof
    fix ord assume "ord \<in> set (lvl_orders l)"
    with kv pl have "order_id ord \<in> snd ` resting kvs"
      by (auto simp: resting_ids)
    with assms(2) show "om' (order_id ord) = om (order_id ord)" by blast
  qed
  with li pl show "level_inv s om' (fst kv) (snd kv)"
    by (simp add: level_inv_frame)
qed

lemma side_inv_subset:
  "side_inv s om kvs \<Longrightarrow> set kvs' \<subseteq> set kvs \<Longrightarrow> side_inv s om kvs'"
  by (auto simp: side_inv_def)

text \<open>An id rests on one side only, and at one key of that side.\<close>

lemma sides_disjoint:
  assumes "side_inv s om kvs" "side_inv s' om kvs'" "s \<noteq> s'"
  shows "snd ` resting kvs \<inter> snd ` resting kvs' = {}"
proof -
  have False if "(p, i) \<in> resting kvs" "(p', i) \<in> resting kvs'" for p p' i
    using side_inv_resting [OF assms(1) that(1)] side_inv_resting [OF assms(2) that(2)] assms(3)
    by auto
  then show ?thesis by force
qed

lemma resting_one_key:
  assumes "side_inv s om kvs" "(p, i) \<in> resting kvs" "(p', i) \<in> resting kvs"
  shows "p = p'"
  using side_inv_resting [OF assms(1,2)] side_inv_resting [OF assms(1,3)] by auto

lemma resting_not_in_rest:
  assumes "side_inv s om ((p, l) # rest)" "ordered_map lt ((p, l) # rest)" "lt = (<) \<or> lt = (>)"
    "rst \<in> set (lvl_orders l)"
  shows "order_id rst \<notin> snd ` resting rest"
proof
  assume "order_id rst \<in> snd ` resting rest"
  then obtain p' where p': "(p', order_id rst) \<in> resting rest" by auto
  then have "(p', order_id rst) \<in> resting ((p, l) # rest)" by (simp add: resting_Cons)
  moreover from assms(4) have "(p, order_id rst) \<in> resting ((p, l) # rest)"
    by (simp add: resting_Cons)
  ultimately have "p = p'" using resting_one_key [OF assms(1)] by blast
  with p' have "p \<in> fst ` set rest" by (auto dest: resting_key)
  moreover from ordered_map_distinct [OF assms(2,3)] have "p \<notin> fst ` set rest" by simp
  ultimately show False by simp
qed


text \<open>The front order of the best level leaves: the index forgets its id.\<close>

lemma fill_side_inv:
  assumes inv: "side_inv s om ((p, l) # rest)" and ord: "ordered_map lt ((p, l) # rest)"
    and lt: "lt = (<) \<or> lt = (>)" and other: "side_inv s' om kvs'" and ne: "s \<noteq> s'"
    and q: "lvl_orders l = rst # q"
  defines "om' \<equiv> om(order_id rst := None)"
  shows "side_inv s om' rest" and "side_inv s' om' kvs'"
    and "q \<noteq> [] \<Longrightarrow> level_inv s om' p (l\<lparr>lvl_volume := v, lvl_orders := q\<rparr>)"
proof -
  from q have in_l: "rst \<in> set (lvl_orders l)" by simp
  from inv have rest: "side_inv s om rest" and lv: "level_inv s om p l"
    by (simp_all add: side_inv_Cons)
  have "i \<noteq> order_id rst" if "i \<in> snd ` resting rest" for i
    using that resting_not_in_rest [OF inv ord lt in_l] by blast
  then have "\<forall>i\<in>snd ` resting rest. om' i = om i"
    by (simp add: om'_def)
  then show "side_inv s om' rest"
    by (rule side_inv_frame [OF rest])
  from in_l have "order_id rst \<in> snd ` resting ((p, l) # rest)"
    by (force simp: resting_Cons)
  with sides_disjoint [OF inv other ne]
  have "i \<noteq> order_id rst" if "i \<in> snd ` resting kvs'" for i
    using that by blast
  then have "\<forall>i\<in>snd ` resting kvs'. om' i = om i"
    by (simp add: om'_def)
  then show "side_inv s' om' kvs'"
    by (rule side_inv_frame [OF other])
  from lv q have d: "distinct (map order_id (rst # q))" and pr: "lvl_price l = p"
    and ok: "\<forall>ord\<in>set q. om (order_id ord) = Some ord \<and> price ord = p \<and> side ord = s"
    by (simp_all add: level_inv_def)
  from d have "\<forall>ord\<in>set q. order_id ord \<noteq> order_id rst"
    by (force simp: image_iff)
  with ok have ok': "\<forall>ord\<in>set q. om' (order_id ord) = Some ord \<and> price ord = p \<and> side ord = s"
    by (simp add: om'_def)
  show "level_inv s om' p (l\<lparr>lvl_volume := v, lvl_orders := q\<rparr>)" if "q \<noteq> []"
    using d pr ok' that by (simp add: level_inv_def)
qed

text \<open>The front order of the best level is partially filled: both copies get the new quantity.\<close>

lemma partial_side_inv:
  fixes x :: "32 word"
  assumes inv: "side_inv s om ((p, l) # rest)" and ord: "ordered_map lt ((p, l) # rest)"
    and lt: "lt = (<) \<or> lt = (>)" and other: "side_inv s' om kvs'" and ne: "s \<noteq> s'"
    and q: "lvl_orders l = rst # q"
  defines "rst' \<equiv> rst\<lparr>quantity := x\<rparr>"
  defines "om' \<equiv> om(order_id rst \<mapsto> rst')"
  shows "side_inv s om' rest" and "side_inv s' om' kvs'"
    and "level_inv s om' p (l\<lparr>lvl_orders := rst' # q, lvl_volume := v\<rparr>)"
proof -
  from q have in_l: "rst \<in> set (lvl_orders l)" by simp
  from inv have rest: "side_inv s om rest" and lv: "level_inv s om p l"
    by (simp_all add: side_inv_Cons)
  have "i \<noteq> order_id rst" if "i \<in> snd ` resting rest" for i
    using that resting_not_in_rest [OF inv ord lt in_l] by blast
  then have "\<forall>i\<in>snd ` resting rest. om' i = om i"
    by (simp add: om'_def)
  then show "side_inv s om' rest"
    by (rule side_inv_frame [OF rest])
  from in_l have "order_id rst \<in> snd ` resting ((p, l) # rest)"
    by (force simp: resting_Cons)
  with sides_disjoint [OF inv other ne]
  have "i \<noteq> order_id rst" if "i \<in> snd ` resting kvs'" for i
    using that by blast
  then have "\<forall>i\<in>snd ` resting kvs'. om' i = om i"
    by (simp add: om'_def)
  then show "side_inv s' om' kvs'"
    by (rule side_inv_frame [OF other])
  from lv q have d: "distinct (map order_id (rst # q))" and pr: "lvl_price l = p"
    and ok: "\<forall>ord\<in>set q. om (order_id ord) = Some ord \<and> price ord = p \<and> side ord = s"
    and front: "price rst = p" "side rst = s"
    by (simp_all add: level_inv_def)
  from d have "\<forall>ord\<in>set q. order_id ord \<noteq> order_id rst"
    by (force simp: image_iff)
  with ok have ok': "\<forall>ord\<in>set q. om' (order_id ord) = Some ord \<and> price ord = p \<and> side ord = s"
    by (simp add: om'_def)
  have "order_id rst' = order_id rst" "price rst' = p" "side rst' = s"
    "om' (order_id rst) = Some rst'"
    using front by (simp_all add: rst'_def om'_def)
  with d pr ok' show "level_inv s om' p (l\<lparr>lvl_orders := rst' # q, lvl_volume := v\<rparr>)"
    by (simp add: level_inv_def)
qed

section \<open>The book invariant through the loops\<close>

lemma book_inv_buy_pass:
  assumes "book_inv b" "match_buy_iter b inc ts = Some (b1, inc1, ts1)"
  shows "book_inv b1"
proof -
  from assms(1) have pi: "price_inv b" and bi: "side_inv BUY (order_map b) (buy_levels b)"
    and si: "side_inv SELL (order_map b) (sell_levels b)"
    by (simp_all add: book_inv_def)
  from pi have os: "ordered_map (<) (sell_levels b)" by (simp add: price_inv_def)
  have lt: "(<) = ((<) :: int \<Rightarrow> int \<Rightarrow> bool) \<or> (<) = ((>) :: int \<Rightarrow> int \<Rightarrow> bool)" by simp
  note pi1 = price_inv_buy_pass [OF pi assms(2)]
  from assms(2) show ?thesis
  proof (cases rule: match_buy_iter_cases)
    case (drop p l rest)
    from si drop(1) have "side_inv SELL (order_map b) rest"
      by (simp add: side_inv_Cons)
    with pi1 bi drop show ?thesis by (simp add: book_inv_def)
  next
    case (fill_last p l rest rst m)
    note f = fill_side_inv [OF si [unfolded fill_last(1)] os [unfolded fill_last(1)] lt bi _ fill_last(2)]
    from f(1) f(2) pi1 fill_last show ?thesis by (simp add: book_inv_def)
  next
    case (fill p l rest rst q m)
    note f = fill_side_inv [OF si [unfolded fill(1)] os [unfolded fill(1)] lt bi _ fill(2)]
    from f(1) f(2) f(3) [OF _ fill(3)] pi1 fill show ?thesis
      by (simp add: book_inv_def side_inv_Cons)
  next
    case (partial p l rest rst q m)
    note f = partial_side_inv [OF si [unfolded partial(1)] os [unfolded partial(1)] lt bi _ partial(2)]
    from f(1) f(2) f(3) pi1 partial show ?thesis
      by (simp add: book_inv_def side_inv_Cons)
  qed
qed

lemma book_inv_sell_pass:
  assumes "book_inv b" "match_sell_iter b inc ts = Some (b1, inc1, ts1)"
  shows "book_inv b1"
proof -
  from assms(1) have pi: "price_inv b" and bi: "side_inv SELL (order_map b) (sell_levels b)"
    and si: "side_inv BUY (order_map b) (buy_levels b)"
    by (simp_all add: book_inv_def)
  from pi have os: "ordered_map (>) (buy_levels b)" by (simp add: price_inv_def)
  have lt: "(>) = ((<) :: int \<Rightarrow> int \<Rightarrow> bool) \<or> (>) = ((>) :: int \<Rightarrow> int \<Rightarrow> bool)" by simp
  note pi1 = price_inv_sell_pass [OF pi assms(2)]
  from assms(2) show ?thesis
  proof (cases rule: match_sell_iter_cases)
    case (drop p l rest)
    from si drop(1) have "side_inv BUY (order_map b) rest"
      by (simp add: side_inv_Cons)
    with pi1 bi drop show ?thesis by (simp add: book_inv_def)
  next
    case (fill_last p l rest rst m)
    note f = fill_side_inv [OF si [unfolded fill_last(1)] os [unfolded fill_last(1)] lt bi _ fill_last(2)]
    from f(1) f(2) pi1 fill_last show ?thesis by (simp add: book_inv_def)
  next
    case (fill p l rest rst q m)
    note f = fill_side_inv [OF si [unfolded fill(1)] os [unfolded fill(1)] lt bi _ fill(2)]
    from f(1) f(2) f(3) [OF _ fill(3)] pi1 fill show ?thesis
      by (simp add: book_inv_def side_inv_Cons)
  next
    case (partial p l rest rst q m)
    note f = partial_side_inv [OF si [unfolded partial(1)] os [unfolded partial(1)] lt bi _ partial(2)]
    from f(1) f(2) f(3) pi1 partial show ?thesis
      by (simp add: book_inv_def side_inv_Cons)
  qed
qed

lemma book_inv_match_buy:
  assumes "match_buy_order b inc ts = (b', inc', ts')" "book_inv b"
  shows "book_inv b'"
proof -
  have "book_inv b' \<and> match_buy_iter b' inc' ts' = None"
    by (rule match_buy_order_inv [OF assms(1), where P = "\<lambda>b1 inc1 ts1. book_inv b1"])
       (auto intro: assms(2) book_inv_buy_pass)
  then show ?thesis by blast
qed

lemma book_inv_match_sell:
  assumes "match_sell_order b inc ts = (b', inc', ts')" "book_inv b"
  shows "book_inv b'"
proof -
  have "book_inv b' \<and> match_sell_iter b' inc' ts' = None"
    by (rule match_sell_order_inv [OF assms(1), where P = "\<lambda>b1 inc1 ts1. book_inv b1"])
       (auto intro: assms(2) book_inv_sell_pass)
  then show ?thesis by blast
qed

text \<open>An id that the index does not hold stays out of it through a loop.\<close>

lemma match_buy_iter_fresh:
  assumes "book_inv b" "match_buy_iter b inc ts = Some (b1, inc1, ts1)" "order_map b i = None"
  shows "order_map b1 i = None"
  using assms(2)
proof (cases rule: match_buy_iter_cases)
  case (partial p l rest rst q m)
  from assms(1) partial(1,2) have "order_map b (order_id rst) = Some rst"
    by (simp add: book_inv_def side_inv_Cons level_inv_def)
  with assms(3) have "i \<noteq> order_id rst" by auto
  with partial assms(3) show ?thesis by simp
qed (use assms(3) in auto)

lemma match_sell_iter_fresh:
  assumes "book_inv b" "match_sell_iter b inc ts = Some (b1, inc1, ts1)" "order_map b i = None"
  shows "order_map b1 i = None"
  using assms(2)
proof (cases rule: match_sell_iter_cases)
  case (partial p l rest rst q m)
  from assms(1) partial(1,2) have "order_map b (order_id rst) = Some rst"
    by (simp add: book_inv_def side_inv_Cons level_inv_def)
  with assms(3) have "i \<noteq> order_id rst" by auto
  with partial assms(3) show ?thesis by simp
qed (use assms(3) in auto)

lemma match_buy_order_fresh:
  assumes "match_buy_order b inc ts = (b', inc', ts')" "book_inv b" "order_map b i = None"
  shows "order_map b' i = None"
proof -
  have "(book_inv b' \<and> order_map b' i = None) \<and> match_buy_iter b' inc' ts' = None"
    by (rule match_buy_order_inv [OF assms(1),
          where P = "\<lambda>b1 inc1 ts1. book_inv b1 \<and> order_map b1 i = None"])
       (auto intro: assms(2,3) book_inv_buy_pass match_buy_iter_fresh)
  then show ?thesis by blast
qed

lemma match_sell_order_fresh:
  assumes "match_sell_order b inc ts = (b', inc', ts')" "book_inv b" "order_map b i = None"
  shows "order_map b' i = None"
proof -
  have "(book_inv b' \<and> order_map b' i = None) \<and> match_sell_iter b' inc' ts' = None"
    by (rule match_sell_order_inv [OF assms(1),
          where P = "\<lambda>b1 inc1 ts1. book_inv b1 \<and> order_map b1 i = None"])
       (auto intro: assms(2,3) book_inv_sell_pass match_sell_iter_fresh)
  then show ?thesis by blast
qed

text \<open>An order with a new id joins the book.\<close>

lemma side_inv_fresh:
  assumes "side_inv s om kvs" "om i = None"
  shows "side_inv s (om(i \<mapsto> x)) kvs" and "i \<notin> snd ` resting kvs"
proof -
  show nin: "i \<notin> snd ` resting kvs"
  proof
    assume "i \<in> snd ` resting kvs"
    then obtain p where "(p, i) \<in> resting kvs" by auto
    from side_inv_resting [OF assms(1) this] assms(2) show False by simp
  qed
  have "j \<noteq> i" if "j \<in> snd ` resting kvs" for j
    using that nin by blast
  then have "\<forall>j\<in>snd ` resting kvs. (om(i \<mapsto> x)) j = om j" by simp
  then show "side_inv s (om(i \<mapsto> x)) kvs"
    by (rule side_inv_frame [OF assms(1)])
qed

lemma add_side_inv:
  assumes inv: "side_inv s om kvs" and ord: "ordered_map lt kvs" and lt: "lt = (<) \<or> lt = (>)"
    and fresh: "om (order_id ord) = None" and sd: "side ord = s"
  shows "side_inv s (om(order_id ord \<mapsto> ord))
           (map_insert lt (price ord)
              (level_add_order (case map_find (price ord) kvs of
                                  None \<Rightarrow> PriceLevelImpl (price ord) | Some l \<Rightarrow> l) ord)
              kvs)"
proof -
  define om' where "om' = om(order_id ord \<mapsto> ord)"
  define lv where "lv = (case map_find (price ord) kvs of
                            None \<Rightarrow> PriceLevelImpl (price ord) | Some l \<Rightarrow> l)"
  note fr = side_inv_fresh(1) [OF inv fresh, where x = ord, folded om'_def]
    side_inv_fresh(2) [OF inv fresh]
  have old: "lvl_price lv = price ord \<and> distinct (map order_id (lvl_orders lv)) \<and>
             (\<forall>x\<in>set (lvl_orders lv). om' (order_id x) = Some x \<and> price x = price ord \<and>
                  side x = s \<and> order_id x \<noteq> order_id ord)"
  proof (cases "map_find (price ord) kvs")
    case None
    then show ?thesis by (simp add: lv_def PriceLevelImpl_def)
  next
    case (Some l)
    then have mem: "(price ord, l) \<in> set kvs" by (rule map_find_in)
    from side_inv_level [OF fr(1) mem]
    have li: "level_inv s om' (price ord) l" .
    have "order_id x \<noteq> order_id ord" if "x \<in> set (lvl_orders l)" for x
    proof -
      from that mem have "order_id x \<in> snd ` resting kvs"
        by (auto simp: resting_ids)
      with fr(2) show ?thesis by metis
    qed
    with li Some show ?thesis by (simp add: lv_def level_inv_def)
  qed
  have new: "level_inv s om' (price ord) (level_add_order lv ord)"
  proof -
    from old have "order_id ord \<notin> order_id ` set (lvl_orders lv)" by (force simp: image_iff)
    moreover have "om' (order_id ord) = Some ord" by (simp add: om'_def)
    ultimately show ?thesis using old sd
      by (simp add: level_inv_def level_add_order_def)
  qed
  show ?thesis
    unfolding side_inv_def set_map_insert [OF ord lt] om'_def [symmetric] lv_def [symmetric]
    using new fr(1) by (auto simp: side_inv_def)
qed

section \<open>The book invariant through the operations\<close>

lemma book_inv_add_to_book:
  assumes "book_inv b" and fresh: "order_map b (order_id ord) = None"
    and "side ord = BUY \<Longrightarrow> sell_levels b = [] \<or> price ord < fst (hd (sell_levels b))"
    and "side ord \<noteq> BUY \<Longrightarrow> buy_levels b = [] \<or> fst (hd (buy_levels b)) < price ord"
  shows "book_inv (add_to_book b ord)"
proof -
  from assms(1) have pi: "price_inv b" and bi: "side_inv BUY (order_map b) (buy_levels b)"
    and si: "side_inv SELL (order_map b) (sell_levels b)"
    by (simp_all add: book_inv_def)
  from pi have ob: "ordered_map (>) (buy_levels b)" and os: "ordered_map (<) (sell_levels b)"
    by (simp_all add: price_inv_def)
  note pi' = price_inv_add_to_book [OF pi assms(3,4)]
  show ?thesis
  proof (cases "side ord = BUY")
    case True
    have "side_inv BUY ((order_map b)(order_id ord \<mapsto> ord))
            (map_insert (>) (price ord)
              (level_add_order (case map_find (price ord) (buy_levels b) of
                                  None \<Rightarrow> PriceLevelImpl (price ord) | Some l \<Rightarrow> l) ord)
              (buy_levels b))"
      by (rule add_side_inv [OF bi ob _ fresh True]) simp
    moreover note side_inv_fresh(1) [OF si fresh, where x = ord]
    ultimately show ?thesis using pi' True
      by (simp add: book_inv_def add_to_book_def Let_def)
  next
    case False
    then have sd: "side ord = SELL" by (cases "side ord") simp_all
    have "side_inv SELL ((order_map b)(order_id ord \<mapsto> ord))
            (map_insert (<) (price ord)
              (level_add_order (case map_find (price ord) (sell_levels b) of
                                  None \<Rightarrow> PriceLevelImpl (price ord) | Some l \<Rightarrow> l) ord)
              (sell_levels b))"
      by (rule add_side_inv [OF si os _ fresh sd]) simp
    moreover note side_inv_fresh(1) [OF bi fresh, where x = ord]
    ultimately show ?thesis using pi' False
      by (simp add: book_inv_def add_to_book_def Let_def)
  qed
qed

lemma book_inv_add_order:
  assumes "book_inv b"
  shows "book_inv (snd (add_order b ord))"
proof (cases "fails_validation b ord")
  case True
  then have "add_order b ord = ([], b)"
    by (auto simp: add_order_def fails_validation_def)
  with assms show ?thesis by simp
next
  case False
  then have ok: "quantity ord \<noteq> 0" "\<not> price ord \<le> 0" "order_map b (order_id ord) = None"
    by (auto simp: fails_validation_def)
  from assms have pi: "price_inv b" by (simp add: book_inv_def)
  show ?thesis
  proof (cases "side ord = BUY")
    case True
    obtain b1 inc1 ts1 where m: "match_buy_order b ord [] = (b1, inc1, ts1)"
      by (cases "match_buy_order b ord []")
    from price_inv_match_buy [OF m pi]
    have stop: "match_buy_iter b1 inc1 ts1 = None" by blast
    note inv1 = book_inv_match_buy [OF m assms]
    from match_buy_order_keeps [OF m] True
    have keep: "price inc1 = price ord" "side inc1 = BUY" "order_id inc1 = order_id ord"
      by simp_all
    from match_buy_order_fresh [OF m assms ok(3)] keep
    have fresh: "order_map b1 (order_id inc1) = None" by simp
    have "book_inv (add_to_book b1 inc1)" if "0 < quantity inc1"
    proof (rule book_inv_add_to_book [OF inv1 fresh])
      from stop that keep
      show "sell_levels b1 = [] \<or> price inc1 < fst (hd (sell_levels b1))"
        by (simp add: match_buy_iter_None word_gt_0)
    next
      assume "side inc1 \<noteq> BUY"
      with keep show "buy_levels b1 = [] \<or> fst (hd (buy_levels b1)) < price inc1" by simp
    qed
    with inv1 m ok True show ?thesis
      by (simp add: add_order_def)
  next
    case False
    obtain b1 inc1 ts1 where m: "match_sell_order b ord [] = (b1, inc1, ts1)"
      by (cases "match_sell_order b ord []")
    from price_inv_match_sell [OF m pi]
    have stop: "match_sell_iter b1 inc1 ts1 = None" by blast
    note inv1 = book_inv_match_sell [OF m assms]
    from match_sell_order_keeps [OF m] False
    have keep: "price inc1 = price ord" "side inc1 \<noteq> BUY" "order_id inc1 = order_id ord"
      by simp_all
    from match_sell_order_fresh [OF m assms ok(3)] keep
    have fresh: "order_map b1 (order_id inc1) = None" by simp
    have "book_inv (add_to_book b1 inc1)" if "0 < quantity inc1"
    proof (rule book_inv_add_to_book [OF inv1 fresh])
      assume "side inc1 = BUY"
      with keep show "sell_levels b1 = [] \<or> price inc1 < fst (hd (sell_levels b1))" by simp
    next
      from stop that keep
      show "buy_levels b1 = [] \<or> fst (hd (buy_levels b1)) < price inc1"
        by (simp add: match_sell_iter_None word_gt_0)
    qed
    with inv1 m ok False show ?thesis
      by (simp add: add_order_def)
  qed
qed

text \<open>Cancelling: the order leaves the index and its level.\<close>

lemma cancel_other_side:
  assumes "side_inv s' om kvs'" "om oid = Some ord" "side ord \<noteq> s'"
  shows "side_inv s' (om(oid := None)) kvs'" and "oid \<notin> snd ` resting kvs'"
proof -
  show nin: "oid \<notin> snd ` resting kvs'"
  proof
    assume "oid \<in> snd ` resting kvs'"
    then obtain p where "(p, oid) \<in> resting kvs'" by auto
    from side_inv_resting [OF assms(1) this] assms(2,3) show False by auto
  qed
  have "j \<noteq> oid" if "j \<in> snd ` resting kvs'" for j
    using that nin by blast
  then have "\<forall>j\<in>snd ` resting kvs'. (om(oid := None)) j = om j" by simp
  then show "side_inv s' (om(oid := None)) kvs'"
    by (rule side_inv_frame [OF assms(1)])
qed

lemma resting_notin:
  assumes "\<forall>kv\<in>set kvs. \<forall>x\<in>set (lvl_orders (snd kv)). order_id x \<noteq> i"
  shows "i \<notin> snd ` resting kvs"
  using assms by (force simp: resting_def)

lemma cancel_same_side:
  assumes inv: "side_inv s om kvs" and ord: "ordered_map lt kvs" and lt: "lt = (<) \<or> lt = (>)"
    and found: "om oid = Some ord"
  shows "side_inv s (om(oid := None)) (cancel_levels ord oid kvs)"
    and "oid \<notin> snd ` resting (cancel_levels ord oid kvs)"
proof -
  define om' where "om' = om(oid := None)"
  text \<open>Outside the level at the order's price no order has this id.\<close>
  have away: "order_id x \<noteq> oid"
    if "kv \<in> set kvs" "fst kv \<noteq> price ord" "x \<in> set (lvl_orders (snd kv))" for kv x
  proof
    assume eq: "order_id x = oid"
    from that(1) have "(fst kv, snd kv) \<in> set kvs" by simp
    from side_inv_level [OF inv this] that(3)
    have "om (order_id x) = Some x" "price x = fst kv"
      by (simp_all add: level_inv_def)
    with eq found have "price ord = fst kv" by simp
    with that(2) show False by simp
  qed
  have keep: "level_inv s om' (fst kv) (snd kv)" if "kv \<in> set kvs" "fst kv \<noteq> price ord" for kv
  proof -
    from that(1) have "(fst kv, snd kv) \<in> set kvs" by simp
    from side_inv_level [OF inv this] show ?thesis
    proof (rule level_inv_frame)
      show "\<forall>x\<in>set (lvl_orders (snd kv)). om' (order_id x) = om (order_id x)"
        using away [OF that] by (simp add: om'_def)
    qed
  qed
  have res: "side_inv s om' (cancel_levels ord oid kvs) \<and>
             oid \<notin> snd ` resting (cancel_levels ord oid kvs)"
  proof (cases "map_find (price ord) kvs")
    case None
    then have nk: "price ord \<notin> fst ` set kvs" by (simp add: map_find_None)
    then have ne: "\<forall>kv\<in>set kvs. fst kv \<noteq> price ord" by force
    from None have c: "cancel_levels ord oid kvs = kvs"
      by (simp add: cancel_levels_def)
    from ne keep have "side_inv s om' kvs"
      unfolding side_inv_def by blast
    moreover from ne away have "oid \<notin> snd ` resting kvs"
      by (intro resting_notin) blast
    ultimately show ?thesis by (simp add: c)
  next
    case (Some level)
    then have mem: "(price ord, level) \<in> set kvs" by (rule map_find_in)
    note li = side_inv_level [OF inv mem]
    define level' where "level' = snd (remove_order level oid)"
    have l': "lvl_orders level' = filter (\<lambda>x. order_id x \<noteq> oid) (lvl_orders level)"
      "lvl_price level' = lvl_price level"
      by (simp_all add: level'_def remove_order_eq)
    show ?thesis
    proof (cases "level_empty level'")
      case True
      with Some have c: "cancel_levels ord oid kvs = map_erase (price ord) kvs"
        by (simp add: cancel_levels_def level'_def)
      from keep have "side_inv s om' (map_erase (price ord) kvs)"
        unfolding side_inv_def set_map_erase by blast
      moreover have "\<forall>kv\<in>set (map_erase (price ord) kvs).
                       \<forall>x\<in>set (lvl_orders (snd kv)). order_id x \<noteq> oid"
        unfolding set_map_erase using away by blast
      then have "oid \<notin> snd ` resting (map_erase (price ord) kvs)"
        by (rule resting_notin)
      ultimately show ?thesis by (simp add: c)
    next
      case False
      with Some have c: "cancel_levels ord oid kvs = map_assign (price ord) level' kvs"
        by (simp add: cancel_levels_def level'_def)
      from mem have "price ord \<in> fst ` set kvs" by force
      note st = set_map_assign [OF this, of level']
      from li have d: "distinct (map order_id (lvl_orders level))"
        and pr: "lvl_price level = price ord"
        and ok: "\<forall>x\<in>set (lvl_orders level). om (order_id x) = Some x \<and>
                   price x = price ord \<and> side x = s"
        by (simp_all add: level_inv_def)
      from d have d': "distinct (map order_id (lvl_orders level'))"
        by (simp add: l' distinct_map_filter)
      from ok have ok': "\<forall>x\<in>set (lvl_orders level'). om' (order_id x) = Some x \<and>
                   price x = price ord \<and> side x = s"
        by (simp add: l' om'_def)
      from False d' ok' pr l'(2) have new: "level_inv s om' (price ord) level'"
        by (simp add: level_inv_def level_empty_def)
      from l' have nid: "\<forall>x\<in>set (lvl_orders level'). order_id x \<noteq> oid" by simp
      from keep new have "side_inv s om' (map_assign (price ord) level' kvs)"
        unfolding side_inv_def st by auto
      moreover have "\<forall>kv\<in>set (map_assign (price ord) level' kvs).
                       \<forall>x\<in>set (lvl_orders (snd kv)). order_id x \<noteq> oid"
      proof (intro ballI)
        fix kv x
        assume kv: "kv \<in> set (map_assign (price ord) level' kvs)"
          and x: "x \<in> set (lvl_orders (snd kv))"
        from kv have "kv = (price ord, level') \<or> (kv \<in> set kvs \<and> fst kv \<noteq> price ord)"
          unfolding st by auto
        then show "order_id x \<noteq> oid"
        proof
          assume "kv = (price ord, level')"
          with x nid show ?thesis by simp
        next
          assume "kv \<in> set kvs \<and> fst kv \<noteq> price ord"
          with away x show ?thesis by blast
        qed
      qed
      then have "oid \<notin> snd ` resting (map_assign (price ord) level' kvs)"
        by (rule resting_notin)
      ultimately show ?thesis by (simp add: c)
    qed
  qed
  from res show "side_inv s (om(oid := None)) (cancel_levels ord oid kvs)"
    by (simp add: om'_def)
  from res show "oid \<notin> snd ` resting (cancel_levels ord oid kvs)" by simp
qed

lemma cancel_order_inv:
  assumes "book_inv b" "order_map b oid = Some ord"
  shows "book_inv (snd (cancel_order b oid)) \<and>
         order_map (snd (cancel_order b oid)) oid = None \<and>
         oid \<notin> snd ` resting (buy_levels (snd (cancel_order b oid))) \<and>
         oid \<notin> snd ` resting (sell_levels (snd (cancel_order b oid)))"
proof -
  from assms(1) have pi: "price_inv b" and bi: "side_inv BUY (order_map b) (buy_levels b)"
    and si: "side_inv SELL (order_map b) (sell_levels b)"
    by (simp_all add: book_inv_def)
  from pi have ob: "ordered_map (>) (buy_levels b)" and os: "ordered_map (<) (sell_levels b)"
    by (simp_all add: price_inv_def)
  note pi' = price_inv_cancel_order [OF pi, of oid]
  show ?thesis
  proof (cases "side ord = BUY")
    case True
    have "(>) = ((<) :: int \<Rightarrow> int \<Rightarrow> bool) \<or> (>) = ((>) :: int \<Rightarrow> int \<Rightarrow> bool)" by simp
    note same = cancel_same_side [OF bi ob this assms(2)]
    from True have "side ord \<noteq> SELL" by simp
    note other = cancel_other_side [OF si assms(2) this]
    from pi' same other True show ?thesis
      by (simp add: cancel_order_eq [OF assms(2)] book_inv_def)
  next
    case False
    have "(<) = ((<) :: int \<Rightarrow> int \<Rightarrow> bool) \<or> (<) = ((>) :: int \<Rightarrow> int \<Rightarrow> bool)" by simp
    note same = cancel_same_side [OF si os this assms(2)]
    note other = cancel_other_side [OF bi assms(2) False]
    from pi' same other False show ?thesis
      by (simp add: cancel_order_eq [OF assms(2)] book_inv_def)
  qed
qed

lemma book_inv_cancel_order:
  assumes "book_inv b"
  shows "book_inv (snd (cancel_order b oid))"
proof (cases "order_map b oid")
  case None
  with assms show ?thesis by (simp add: cancel_order_def)
next
  case (Some ord)
  from cancel_order_inv [OF assms Some] show ?thesis by blast
qed

lemma book_inv_modify_order:
  assumes "book_inv b"
  shows "book_inv (snd (modify_order b now oid new_price new_quantity))"
proof (cases "order_map b oid")
  case None
  with assms show ?thesis by (simp add: modify_order_def)
next
  case (Some old)
  obtain c b1 where c: "cancel_order b oid = (c, b1)" by (cases "cancel_order b oid")
  from book_inv_cancel_order [OF assms, of oid] c have "book_inv b1" by simp
  with Some c show ?thesis
    by (cases c) (simp_all add: modify_order_def Let_def book_inv_add_order)
qed

lemma book_inv_create: "book_inv (create_order_book symbol)"
  using price_inv_create [of symbol]
  by (simp add: book_inv_def side_inv_def create_order_book_def)

lemma reachable_book_inv: "reachable b \<Longrightarrow> book_inv b"
  by (induction rule: reachable.induct)
     (simp_all add: book_inv_create book_inv_add_order book_inv_cancel_order
        book_inv_modify_order)

section \<open>Adding an order and cancelling it\<close>

lemma filter_keys_id: "\<forall>x\<in>set kvs. fst x \<noteq> k \<Longrightarrow> filter (\<lambda>kv. fst kv \<noteq> k) kvs = kvs"
  by (induction kvs) auto

lemma map_keys_id:
  "\<forall>x\<in>set kvs. fst x \<noteq> k \<Longrightarrow> map (\<lambda>kv. if fst kv = k then (k, v) else kv) kvs = kvs"
  by (induction kvs) auto

lemma insert_roundtrip_less:
  assumes "sorted_wrt (<) (map fst kvs)"
  shows "map_find k (map_insert (<) k v kvs) = Some v"
    and "k \<notin> fst ` set kvs \<Longrightarrow> map_erase k (map_insert (<) k v kvs) = kvs"
    and "map_find k kvs = Some w \<Longrightarrow> map_assign k w (map_insert (<) k v kvs) = kvs"
  using assms
proof (induction kvs)
  case Nil
  { case 1 show ?case by (simp add: map_find_def) }
  { case 2 show ?case by (simp add: map_erase_def) }
  { case 3 then show ?case by (simp add: map_find_def) }
next
  case (Cons a kvs)
  obtain k' v' where a: "a = (k', v')" by (cases a)
  { case 1
    with Cons.IH(1) a show ?case by (auto simp: map_find_def) }
  { case 2
    then have s: "sorted_wrt (<) (map fst kvs)" and lt: "\<forall>x\<in>set kvs. k' < fst x"
      using a by auto
    from 2 a have ne: "k \<noteq> k'" "k \<notin> fst ` set kvs" by auto
    show ?case
    proof (cases "k < k'")
      case True
      with lt have "\<forall>x\<in>set kvs. fst x \<noteq> k" by auto
      with True a ne show ?thesis by (simp add: map_erase_def filter_keys_id)
    next
      case False
      with ne have "k' < k" by simp
      with Cons.IH(2) [OF ne(2) s] a ne show ?thesis by (simp add: map_erase_def)
    qed }
  { case 3
    then have s: "sorted_wrt (<) (map fst kvs)" and lt: "\<forall>x\<in>set kvs. k' < fst x"
      using a by auto
    show ?case
    proof (cases "k = k'")
      case True
      with lt have "\<forall>x\<in>set kvs. fst x \<noteq> k" by auto
      with True a 3 show ?thesis by (simp add: map_assign_def map_find_def map_keys_id)
    next
      case False
      with 3 a have f: "map_find k kvs = Some w" by (simp add: map_find_def)
      then have "k \<in> fst ` set kvs" by (auto simp: map_find_def dest: map_of_SomeD intro: rev_image_eqI)
      with lt have "k' < k" by auto
      with Cons.IH(3) [OF f s] a False show ?thesis by (simp add: map_assign_def)
    qed }
qed

lemma insert_roundtrip_greater:
  assumes "sorted_wrt (>) (map fst kvs)"
  shows "map_find k (map_insert (>) k v kvs) = Some v"
    and "k \<notin> fst ` set kvs \<Longrightarrow> map_erase k (map_insert (>) k v kvs) = kvs"
    and "map_find k kvs = Some w \<Longrightarrow> map_assign k w (map_insert (>) k v kvs) = kvs"
  using assms
proof (induction kvs)
  case Nil
  { case 1 show ?case by (simp add: map_find_def) }
  { case 2 show ?case by (simp add: map_erase_def) }
  { case 3 then show ?case by (simp add: map_find_def) }
next
  case (Cons a kvs)
  obtain k' v' where a: "a = (k', v')" by (cases a)
  { case 1
    with Cons.IH(1) a show ?case by (auto simp: map_find_def) }
  { case 2
    then have s: "sorted_wrt (>) (map fst kvs)" and lt: "\<forall>x\<in>set kvs. k' > fst x"
      using a by auto
    from 2 a have ne: "k \<noteq> k'" "k \<notin> fst ` set kvs" by auto
    show ?case
    proof (cases "k > k'")
      case True
      with lt have "\<forall>x\<in>set kvs. fst x \<noteq> k" by auto
      with True a ne show ?thesis by (simp add: map_erase_def filter_keys_id)
    next
      case False
      with ne have "k' > k" by simp
      with Cons.IH(2) [OF ne(2) s] a ne show ?thesis by (simp add: map_erase_def)
    qed }
  { case 3
    then have s: "sorted_wrt (>) (map fst kvs)" and lt: "\<forall>x\<in>set kvs. k' > fst x"
      using a by auto
    show ?case
    proof (cases "k = k'")
      case True
      with lt have "\<forall>x\<in>set kvs. fst x \<noteq> k" by auto
      with True a 3 show ?thesis by (simp add: map_assign_def map_find_def map_keys_id)
    next
      case False
      with 3 a have f: "map_find k kvs = Some w" by (simp add: map_find_def)
      then have "k \<in> fst ` set kvs" by (auto simp: map_find_def dest: map_of_SomeD intro: rev_image_eqI)
      with lt have "k' > k" by auto
      with Cons.IH(3) [OF f s] a False show ?thesis by (simp add: map_assign_def)
    qed }
qed

lemma insert_roundtrip:
  assumes "ordered_map lt kvs" "lt = (<) \<or> lt = (>)"
  shows "map_find k (map_insert lt k v kvs) = Some v"
    and "k \<notin> fst ` set kvs \<Longrightarrow> map_erase k (map_insert lt k v kvs) = kvs"
    and "map_find k kvs = Some w \<Longrightarrow> map_assign k w (map_insert lt k v kvs) = kvs"
  using assms
    insert_roundtrip_less(1) [where kvs = kvs and k = k and v = v]
    insert_roundtrip_greater(1) [where kvs = kvs and k = k and v = v]
    insert_roundtrip_less(2) [where kvs = kvs and k = k and v = v]
    insert_roundtrip_greater(2) [where kvs = kvs and k = k and v = v]
    insert_roundtrip_less(3) [where kvs = kvs and k = k and v = v and w = w]
    insert_roundtrip_greater(3) [where kvs = kvs and k = k and v = v and w = w]
  unfolding ordered_map_def by blast+

text \<open>In a book that satisfies the invariant, a loop that returns no trade made no pass.\<close>

lemma match_buy_order_extends:
  assumes "match_buy_order b inc ts = (b', inc', ts')"
  shows "length ts \<le> length ts'"
proof -
  have "length ts \<le> length ts' \<and> match_buy_iter b' inc' ts' = None"
    by (rule match_buy_order_inv [OF assms, where P = "\<lambda>b1 inc1 ts1. length ts \<le> length ts1"])
       (auto dest!: match_buy_iter_pass)
  then show ?thesis by blast
qed

lemma match_buy_order_no_trade:
  assumes "book_inv b" "match_buy_order b inc [] = (b', inc', [])"
  shows "b' = b \<and> inc' = inc"
proof (cases "match_buy_iter b inc []")
  case None
  with assms(2) show ?thesis by (simp add: match_buy_order_stop)
next
  case (Some r)
  obtain b1 inc1 ts1 where r: "r = (b1, inc1, ts1)" by (cases r)
  note it = Some [unfolded r]
  from assms(2) it have run: "match_buy_order b1 inc1 ts1 = (b', inc', [])"
    by (simp add: match_buy_order_pass)
  from match_buy_order_extends [OF run] have nil: "ts1 = []" by simp
  from it have False
  proof (cases rule: match_buy_iter_cases)
    case (drop p l rest)
    with assms(1) show False
      by (simp add: book_inv_def side_inv_Cons level_inv_def)
  qed (use nil in simp_all)
  then show ?thesis ..
qed

lemma match_sell_order_extends:
  assumes "match_sell_order b inc ts = (b', inc', ts')"
  shows "length ts \<le> length ts'"
proof -
  have "length ts \<le> length ts' \<and> match_sell_iter b' inc' ts' = None"
    by (rule match_sell_order_inv [OF assms, where P = "\<lambda>b1 inc1 ts1. length ts \<le> length ts1"])
       (auto dest!: match_sell_iter_pass)
  then show ?thesis by blast
qed

lemma match_sell_order_no_trade:
  assumes "book_inv b" "match_sell_order b inc [] = (b', inc', [])"
  shows "b' = b \<and> inc' = inc"
proof (cases "match_sell_iter b inc []")
  case None
  with assms(2) show ?thesis by (simp add: match_sell_order_stop)
next
  case (Some r)
  obtain b1 inc1 ts1 where r: "r = (b1, inc1, ts1)" by (cases r)
  note it = Some [unfolded r]
  from assms(2) it have run: "match_sell_order b1 inc1 ts1 = (b', inc', [])"
    by (simp add: match_sell_order_pass)
  from match_sell_order_extends [OF run] have nil: "ts1 = []" by simp
  from it have False
  proof (cases rule: match_sell_iter_cases)
    case (drop p l rest)
    with assms(1) show False
      by (simp add: book_inv_def side_inv_Cons level_inv_def)
  qed (use nil in simp_all)
  then show ?thesis ..
qed

lemma cancel_after_add_levels:
  assumes inv: "side_inv s om kvs" and ord: "ordered_map lt kvs" and lt: "lt = (<) \<or> lt = (>)"
    and fresh: "om (order_id ord) = None"
  shows "cancel_levels ord (order_id ord)
           (map_insert lt (price ord)
              (level_add_order (case map_find (price ord) kvs of
                                  None \<Rightarrow> PriceLevelImpl (price ord) | Some l \<Rightarrow> l) ord)
              kvs) = kvs"
proof (cases "map_find (price ord) kvs")
  case None
  define lv' where "lv' = level_add_order (PriceLevelImpl (price ord)) ord"
  have f: "map_find (price ord) (map_insert lt (price ord) lv' kvs) = Some lv'"
    by (rule insert_roundtrip(1) [OF ord lt])
  have e: "level_empty (snd (remove_order lv' (order_id ord)))"
    by (simp add: remove_order_eq lv'_def level_add_order_def PriceLevelImpl_def level_empty_def)
  from None have "price ord \<notin> fst ` set kvs" by (simp add: map_find_None)
  from insert_roundtrip(2) [OF ord lt this] f e None show ?thesis
    by (simp add: cancel_levels_def lv'_def)
next
  case (Some l)
  define lv' where "lv' = level_add_order l ord"
  have f: "map_find (price ord) (map_insert lt (price ord) lv' kvs) = Some lv'"
    by (rule insert_roundtrip(1) [OF ord lt])
  from Some have mem: "(price ord, l) \<in> set kvs" by (rule map_find_in)
  from side_inv_level [OF inv mem] have ne: "lvl_orders l \<noteq> []"
    by (simp add: level_inv_def)
  have other: "\<forall>x\<in>set (lvl_orders l). order_id x \<noteq> order_id ord"
  proof
    fix x assume "x \<in> set (lvl_orders l)"
    with mem have "order_id x \<in> snd ` resting kvs" by (auto simp: resting_ids)
    with side_inv_fresh(2) [OF inv fresh] show "order_id x \<noteq> order_id ord" by metis
  qed
  then have keep: "filter (\<lambda>x. order_id x \<noteq> order_id ord) (lvl_orders l) = lvl_orders l"
    and gone: "filter (\<lambda>x. order_id x = order_id ord) (lvl_orders l) = []"
    by (simp_all add: filter_empty_conv)
  have r: "snd (remove_order lv' (order_id ord)) = l"
    by (simp add: remove_order_eq lv'_def level_add_order_def keep gone)
  from ne r have "\<not> level_empty (snd (remove_order lv' (order_id ord)))"
    by (simp add: level_empty_def)
  with insert_roundtrip(3) [OF ord lt Some] f r Some show ?thesis
    by (simp add: cancel_levels_def lv'_def)
qed

lemma add_to_book_cancel:
  assumes "book_inv b" and fresh: "order_map b (order_id ord) = None"
  shows "snd (cancel_order (add_to_book b ord) (order_id ord)) = b"
proof -
  from assms(1) have pi: "price_inv b" and bi: "side_inv BUY (order_map b) (buy_levels b)"
    and si: "side_inv SELL (order_map b) (sell_levels b)"
    by (simp_all add: book_inv_def)
  from pi have ob: "ordered_map (>) (buy_levels b)" and os: "ordered_map (<) (sell_levels b)"
    by (simp_all add: price_inv_def)
  have found: "order_map (add_to_book b ord) (order_id ord) = Some ord"
    by (simp add: add_to_book_def Let_def)
  from fresh have idx: "((order_map b)(order_id ord \<mapsto> ord))(order_id ord := None) = order_map b"
    by (auto simp: fun_eq_iff)
  show ?thesis
  proof (cases "side ord = BUY")
    case True
    have "cancel_levels ord (order_id ord)
           (map_insert (>) (price ord)
              (level_add_order (case map_find (price ord) (buy_levels b) of
                                  None \<Rightarrow> PriceLevelImpl (price ord) | Some l \<Rightarrow> l) ord)
              (buy_levels b)) = buy_levels b"
      by (rule cancel_after_add_levels [OF bi ob _ fresh]) simp
    with True idx show ?thesis
      unfolding cancel_order_eq [OF found]
      by (simp add: add_to_book_def Let_def)
  next
    case False
    have "cancel_levels ord (order_id ord)
           (map_insert (<) (price ord)
              (level_add_order (case map_find (price ord) (sell_levels b) of
                                  None \<Rightarrow> PriceLevelImpl (price ord) | Some l \<Rightarrow> l) ord)
              (sell_levels b)) = sell_levels b"
      by (rule cancel_after_add_levels [OF si os _ fresh]) simp
    with False idx show ?thesis
      unfolding cancel_order_eq [OF found]
      by (simp add: add_to_book_def Let_def)
  qed
qed

text \<open>
  Claim C5, as amended. In a book that the operations produce from a new one, for an order
  whose id the index does not hold and for which \<open>add_order\<close> returns no trade,
  \<open>add_order\<close> followed by \<open>cancel_order\<close> of that id leaves the book as it was
  before: bids, asks, index and \<open>next_trade_id_\<close>. (With a trade the claim fails: the
  resting orders that traded are gone or smaller, as the counterexample below shows.)
\<close>

theorem add_then_cancel_restores:
  assumes "reachable b" and "order_map b (order_id ord) = None" and "fst (add_order b ord) = []"
  shows "snd (cancel_order (snd (add_order b ord)) (order_id ord)) = b"
proof (cases "fails_validation b ord")
  case True
  then have "add_order b ord = ([], b)"
    by (auto simp: add_order_def fails_validation_def)
  with assms(2) show ?thesis by (simp add: cancel_order_absent)
next
  case False
  then have ok: "quantity ord \<noteq> 0" "\<not> price ord \<le> 0"
    by (auto simp: fails_validation_def)
  note inv = reachable_book_inv [OF assms(1)]
  show ?thesis
  proof (cases "side ord = BUY")
    case True
    obtain b1 inc1 ts1 where m: "match_buy_order b ord [] = (b1, inc1, ts1)"
      by (cases "match_buy_order b ord []")
    with assms(2,3) ok True have "ts1 = []" by (simp add: add_order_def)
    with match_buy_order_no_trade [OF inv] m have "b1 = b" "inc1 = ord" by simp_all
    with m ok True assms(2) have "snd (add_order b ord) = add_to_book b ord"
      by (simp add: add_order_def word_gt_0)
    with add_to_book_cancel [OF inv assms(2)] show ?thesis by simp
  next
    case False
    obtain b1 inc1 ts1 where m: "match_sell_order b ord [] = (b1, inc1, ts1)"
      by (cases "match_sell_order b ord []")
    with assms(2,3) ok False have "ts1 = []" by (simp add: add_order_def)
    with match_sell_order_no_trade [OF inv] m have "b1 = b" "inc1 = ord" by simp_all
    with m ok False assms(2) have "snd (add_order b ord) = add_to_book b ord"
      by (simp add: add_order_def word_gt_0)
    with add_to_book_cancel [OF inv assms(2)] show ?thesis by simp
  qed
qed

theorem add_then_cancel_restores_witness:
  "reachable book_one_bid \<and> order_map book_one_bid (order_id (Order 2 7 101 5 SELL 0 0)) = None \<and>
   fst (add_order book_one_bid (Order 2 7 101 5 SELL 0 0)) = [] \<and>
   snd (cancel_order (snd (add_order book_one_bid (Order 2 7 101 5 SELL 0 0)))
          (order_id (Order 2 7 101 5 SELL 0 0))) = book_one_bid"
proof -
  have f: "order_map book_one_bid (order_id (Order 2 7 101 5 SELL 0 0)) = None"
    by (simp add: book_one_bid_eq Order_def)
  have n: "fst (add_order book_one_bid (Order 2 7 101 5 SELL 0 0)) = []"
    by (simp add: book_one_bid_eq add_order_def Order_def match_sell_order.simps
          match_sell_iter_def)
  from add_then_cancel_restores [OF reachable_book_one_bid f n] reachable_book_one_bid f n
  show ?thesis by simp
qed

text \<open>
  The claim as written fails when the order trades: a sell of 4 at 100 against the bid of
  10 at 100 is filled and never rests, the cancel finds nothing, and the bid is left
  with 6.
\<close>

theorem add_then_cancel_counterexample:
  "reachable book_one_bid \<and>
   order_map book_one_bid (order_id (Order 2 7 100 4 SELL 0 0)) = None \<and>
   lvl_orders (snd (hd (buy_levels (snd (cancel_order
      (snd (add_order book_one_bid (Order 2 7 100 4 SELL 0 0)))
      (order_id (Order 2 7 100 4 SELL 0 0))))))) = [Order 1 7 100 6 BUY 0 0] \<and>
   lvl_orders (snd (hd (buy_levels book_one_bid))) = [Order 1 7 100 10 BUY 0 0] \<and>
   order_map (snd (cancel_order
      (snd (add_order book_one_bid (Order 2 7 100 4 SELL 0 0)))
      (order_id (Order 2 7 100 4 SELL 0 0)))) 1 = Some (Order 1 7 100 6 BUY 0 0) \<and>
   order_map book_one_bid 1 = Some (Order 1 7 100 10 BUY 0 0) \<and>
   snd (cancel_order (snd (add_order book_one_bid (Order 2 7 100 4 SELL 0 0)))
          (order_id (Order 2 7 100 4 SELL 0 0))) \<noteq> book_one_bid"
proof -
  have c: "snd (cancel_order (snd (add_order book_one_bid (Order 2 7 100 4 SELL 0 0)))
          (order_id (Order 2 7 100 4 SELL 0 0))) =
     \<lparr>book_symbol_id = 7,
       buy_levels = [(100, \<lparr>lvl_price = 100, lvl_orders = [Order 1 7 100 6 BUY 0 0],
                            lvl_volume = 6\<rparr>)],
       sell_levels = [],
       order_map = [1 \<mapsto> Order 1 7 100 6 BUY 0 0],
       next_trade_id = 2\<rparr>"
    unfolding add_order_one_bid_sell4 by (simp add: cancel_order_def Order_def)
  have f: "order_map book_one_bid (order_id (Order 2 7 100 4 SELL 0 0)) = None"
    by (simp add: book_one_bid_eq Order_def)
  have "next_trade_id (snd (cancel_order (snd (add_order book_one_bid (Order 2 7 100 4 SELL 0 0)))
          (order_id (Order 2 7 100 4 SELL 0 0)))) \<noteq> next_trade_id book_one_bid"
    unfolding c by (simp add: book_one_bid_eq)
  then have ne: "snd (cancel_order (snd (add_order book_one_bid (Order 2 7 100 4 SELL 0 0)))
          (order_id (Order 2 7 100 4 SELL 0 0))) \<noteq> book_one_bid"
    by auto
  show ?thesis
    using reachable_book_one_bid f ne unfolding c
    by (simp add: book_one_bid_eq)
qed

section \<open>Modifying an order into one that fails validation\<close>

text \<open>
  Claim C9. When \<open>order_id\<close> resolves to a resting order and the new quantity is 0 or
  the new price is not positive, \<open>modify_order\<close> cancels the order, its \<open>add_order\<close>
  rejects the replacement, and it still returns the replacement: the book is left as
  \<open>cancel_order\<close> leaves it, with the id in neither the index nor any level. The
  engine's \<open>process_modify_order\<close> then counts a modification.
\<close>

theorem modify_order_invalid_removes:
  assumes "reachable b" and "order_map b oid = Some old"
    and "new_quantity = 0 \<or> new_price \<le> 0"
  shows "modify_order b now oid new_price new_quantity =
           (Some (old\<lparr>price := new_price, quantity := new_quantity, timestamp_ns := now\<rparr>),
            snd (cancel_order b oid)) \<and>
         order_map (snd (modify_order b now oid new_price new_quantity)) oid = None \<and>
         oid \<notin> snd ` resting (buy_levels (snd (modify_order b now oid new_price new_quantity))) \<and>
         oid \<notin> snd ` resting (sell_levels (snd (modify_order b now oid new_price new_quantity))) \<and>
         (\<forall>e symbol. order_books e symbol = Some b \<longrightarrow>
            modified_orders (stats (process_modify_order e now symbol oid new_price new_quantity)) =
              modified_orders (stats e) + 1 \<and>
            order_books (process_modify_order e now symbol oid new_price new_quantity) symbol =
              Some (snd (cancel_order b oid)))"
proof -
  define new_order where
    "new_order = old\<lparr>price := new_price, quantity := new_quantity, timestamp_ns := now\<rparr>"
  obtain c b1 where c: "cancel_order b oid = (c, b1)" by (cases "cancel_order b oid")
  with cancel_order_found [OF assms(2)] have ct: "c = True" by simp
  from assms(3) have "add_order b1 new_order = ([], b1)"
    by (auto simp: add_order_def new_order_def)
  with assms(2) c ct
  have m: "modify_order b now oid new_price new_quantity = (Some new_order, b1)"
    by (simp add: modify_order_def Let_def new_order_def)
  from cancel_order_inv [OF reachable_book_inv [OF assms(1)] assms(2)] c
  have gone: "order_map b1 oid = None" "oid \<notin> snd ` resting (buy_levels b1)"
    "oid \<notin> snd ` resting (sell_levels b1)"
    by simp_all
  have "modified_orders (stats (process_modify_order e now symbol oid new_price new_quantity)) =
          modified_orders (stats e) + 1 \<and>
        order_books (process_modify_order e now symbol oid new_price new_quantity) symbol = Some b1"
    if "order_books e symbol = Some b" for e symbol
    using that m by (simp add: process_modify_order_def)
  with m gone c show ?thesis
    by (simp add: new_order_def)
qed

theorem modify_order_invalid_removes_witness:
  "reachable book_one_bid \<and> order_map book_one_bid 1 = Some (Order 1 7 100 10 BUY 0 0) \<and>
   modify_order book_one_bid 99 1 100 0 =
     (Some (Order 1 7 100 0 BUY 0 99), snd (cancel_order book_one_bid 1)) \<and>
   snd (cancel_order book_one_bid 1) = create_order_book 7 \<and>
   order_books engine_one_bid 7 = Some book_one_bid \<and>
   modified_orders (stats (process_modify_order engine_one_bid 99 7 1 100 0)) = 1 \<and>
   order_books (process_modify_order engine_one_bid 99 7 1 100 0) 7 = Some (create_order_book 7)"
proof -
  have f: "order_map book_one_bid 1 = Some (Order 1 7 100 10 BUY 0 0)"
    by (simp add: book_one_bid_eq)
  have e: "(Order 1 7 100 10 BUY 0 0)\<lparr>price := 100, quantity := 0, timestamp_ns := 99\<rparr>
             = Order 1 7 100 0 BUY 0 99"
    by (simp add: Order_def)
  have c: "snd (cancel_order book_one_bid 1) = create_order_book 7"
    by (simp add: book_one_bid_eq cancel_order_def Order_def map_find_def remove_order_def
          level_empty_def map_erase_def create_order_book_def)
  have b: "order_books engine_one_bid 7 = Some book_one_bid"
    by (simp add: engine_one_bid_def)
  have s: "modified_orders (stats engine_one_bid) = 0"
    by (simp add: engine_one_bid_def engine_empty_def)
  from modify_order_invalid_removes [OF reachable_book_one_bid f, of 0 100 99] e c b s
    reachable_book_one_bid f
  show ?thesis by simp
qed

section \<open>The trades of add_order\<close>

lemma resting_order:
  assumes "side_inv s om kvs" "(p, i) \<in> resting kvs"
  shows "\<exists>l rst. (p, l) \<in> set kvs \<and> rst \<in> set (lvl_orders l) \<and> order_id rst = i \<and>
                 price rst = p \<and> side rst = s"
proof -
  from assms(2) obtain l rst where m: "(p, l) \<in> set kvs" "rst \<in> set (lvl_orders l)"
    "order_id rst = i"
    by (auto simp: resting_def)
  from side_inv_level [OF assms(1) m(1)] m(2) have "price rst = p" "side rst = s"
    by (simp_all add: level_inv_def)
  with m show ?thesis by blast
qed

text \<open>
  Claim C1. For a book that the operations produce from a new one and any incoming order,
  every trade that \<open>add_order\<close> returns is priced at the key of a level of the opposite
  side that held the passive order, which is that order's own price; the quantities of
  the trades add up to at most the incoming quantity; for an incoming buy no trade is
  priced above its limit and the prices do not fall along the list; for an incoming sell
  no trade is priced below its limit and the prices do not rise.
\<close>

theorem add_order_trades:
  assumes "reachable b" and "add_order b ord = (trades, b')"
  shows "(\<forall>t\<in>set trades.
            \<exists>l rst. (trade_price t, l) \<in> set (if side ord = BUY then sell_levels b else buy_levels b) \<and>
                    rst \<in> set (lvl_orders l) \<and> order_id rst = sell_order_id t \<and>
                    price rst = trade_price t \<and> side rst \<noteq> side ord \<and>
                    buy_order_id t = order_id ord) \<and>
         sum_list (map (\<lambda>t. unat (trade_quantity t)) trades) \<le> unat (quantity ord) \<and>
         (if side ord = BUY
          then (\<forall>t\<in>set trades. trade_price t \<le> price ord) \<and>
               sorted_wrt (\<le>) (map trade_price trades)
          else (\<forall>t\<in>set trades. price ord \<le> trade_price t) \<and>
               sorted_wrt (\<ge>) (map trade_price trades))"
proof (cases "fails_validation b ord")
  case True
  then have "add_order b ord = ([], b)"
    by (auto simp: add_order_def fails_validation_def)
  with assms(2) show ?thesis by simp
next
  case False
  then have ok: "quantity ord \<noteq> 0" "\<not> price ord \<le> 0" "order_map b (order_id ord) = None"
    by (auto simp: fails_validation_def)
  from reachable_book_inv [OF assms(1)]
  have pi: "price_inv b" and bi: "side_inv BUY (order_map b) (buy_levels b)"
    and si: "side_inv SELL (order_map b) (sell_levels b)"
    by (simp_all add: book_inv_def)
  from pi have ob: "ordered_map (>) (buy_levels b)" and os: "ordered_map (<) (sell_levels b)"
    by (simp_all add: price_inv_def)
  show ?thesis
  proof (cases "side ord = BUY")
    case True
    obtain b1 inc1 ts1 where m: "match_buy_order b ord [] = (b1, inc1, ts1)"
      by (cases "match_buy_order b ord []")
    with assms(2) ok True have ts: "ts1 = trades" by (simp add: add_order_def)
    from match_buy_order_trades [OF m os] ts
    have each: "\<forall>t\<in>set trades. buy_trade_ok b ord t"
      and total: "sum_list (map (\<lambda>t. unat (trade_quantity t)) trades) + unat (quantity inc1) =
                    unat (quantity ord)"
      and sorted: "sorted (map trade_price trades)"
      by auto
    have "\<exists>l rst. (trade_price t, l) \<in> set (sell_levels b) \<and>
                    rst \<in> set (lvl_orders l) \<and> order_id rst = sell_order_id t \<and>
                    price rst = trade_price t \<and> side rst \<noteq> side ord \<and>
                    buy_order_id t = order_id ord"
      if "t \<in> set trades" for t
    proof -
      from each that have r: "(trade_price t, sell_order_id t) \<in> resting (sell_levels b)"
        and i: "buy_order_id t = order_id ord"
        by (simp_all add: buy_trade_ok_def)
      from resting_order [OF si r] obtain l rst where x: "(trade_price t, l) \<in> set (sell_levels b)"
        "rst \<in> set (lvl_orders l)" "order_id rst = sell_order_id t"
        "price rst = trade_price t" "side rst = SELL"
        by blast
      from x(5) True have "side rst \<noteq> side ord" by simp
      with x i show ?thesis by blast
    qed
    moreover from each have "\<forall>t\<in>set trades. trade_price t \<le> price ord"
      by (simp add: buy_trade_ok_def)
    moreover from total
    have "sum_list (map (\<lambda>t. unat (trade_quantity t)) trades) \<le> unat (quantity ord)"
      by simp
    ultimately show ?thesis using True sorted by simp
  next
    case False
    then have sd: "side ord = SELL" by (cases "side ord") simp_all
    obtain b1 inc1 ts1 where m: "match_sell_order b ord [] = (b1, inc1, ts1)"
      by (cases "match_sell_order b ord []")
    with assms(2) ok False have ts: "ts1 = trades" by (simp add: add_order_def)
    from match_sell_order_trades [OF m ob] ts
    have each: "\<forall>t\<in>set trades. sell_trade_ok b ord t"
      and total: "sum_list (map (\<lambda>t. unat (trade_quantity t)) trades) + unat (quantity inc1) =
                    unat (quantity ord)"
      and sorted: "sorted_wrt (\<ge>) (map trade_price trades)"
      by auto
    have "\<exists>l rst. (trade_price t, l) \<in> set (buy_levels b) \<and>
                    rst \<in> set (lvl_orders l) \<and> order_id rst = sell_order_id t \<and>
                    price rst = trade_price t \<and> side rst \<noteq> side ord \<and>
                    buy_order_id t = order_id ord"
      if "t \<in> set trades" for t
    proof -
      from each that have r: "(trade_price t, sell_order_id t) \<in> resting (buy_levels b)"
        and i: "buy_order_id t = order_id ord"
        by (simp_all add: sell_trade_ok_def)
      from resting_order [OF bi r] obtain l rst where x: "(trade_price t, l) \<in> set (buy_levels b)"
        "rst \<in> set (lvl_orders l)" "order_id rst = sell_order_id t"
        "price rst = trade_price t" "side rst = BUY"
        by blast
      from x(5) sd have "side rst \<noteq> side ord" by simp
      with x i show ?thesis by blast
    qed
    moreover from each have "\<forall>t\<in>set trades. price ord \<le> trade_price t"
      by (simp add: sell_trade_ok_def)
    moreover from total
    have "sum_list (map (\<lambda>t. unat (trade_quantity t)) trades) \<le> unat (quantity ord)"
      by simp
    ultimately show ?thesis using False sorted by simp
  qed
qed


theorem add_order_trades_witness:
  "reachable book_one_bid \<and>
   fst (add_order book_one_bid (Order 2 7 100 4 SELL 0 0)) =
     [\<lparr>trade_id = 1, buy_order_id = 2, sell_order_id = 1, trade_symbol_id = 7,
       trade_price = 100, trade_quantity = 4\<rparr>] \<and>
   (\<exists>l rst. (100, l) \<in> set (buy_levels book_one_bid) \<and> rst \<in> set (lvl_orders l) \<and>
            order_id rst = 1 \<and> price rst = 100 \<and> side rst \<noteq> SELL) \<and>
   sum_list (map (\<lambda>t. unat (trade_quantity t))
     (fst (add_order book_one_bid (Order 2 7 100 4 SELL 0 0)))) \<le> unat (4 :: 32 word) \<and>
   price (Order 2 7 100 4 SELL 0 0) \<le> 100"
proof -
  note t = add_order_trades [OF reachable_book_one_bid add_order_one_bid_sell4]
  from t have "\<exists>l rst. (100, l) \<in> set (buy_levels book_one_bid) \<and> rst \<in> set (lvl_orders l) \<and>
            order_id rst = 1 \<and> price rst = 100 \<and> side rst \<noteq> SELL"
    by (simp add: Order_def)
  moreover from t have "sum_list (map (\<lambda>t. unat (trade_quantity t))
     (fst (add_order book_one_bid (Order 2 7 100 4 SELL 0 0)))) \<le> unat (4 :: 32 word)"
    unfolding add_order_one_bid_sell4 by (simp add: Order_def)
  moreover from t have "price (Order 2 7 100 4 SELL 0 0) \<le> 100"
    by (simp add: Order_def)
  ultimately show ?thesis
    using reachable_book_one_bid by (simp add: add_order_one_bid_sell4)
qed

section \<open>The SPSC queue is a FIFO\<close>

lemma chain_le: "chain h p xs tl_addr \<Longrightarrow> p \<le> tl_addr"
proof (induction xs arbitrary: p)
  case Nil
  then show ?case by simp
next
  case (Cons x xs)
  from Cons.prems obtain p' where "p < p'" "chain h p' xs tl_addr"
    by (auto split: option.splits)
  with Cons.IH [of p'] show ?case by simp
qed

lemma chain_append:
  "chain h p xs m \<Longrightarrow> chain h m ys tl_addr \<Longrightarrow> chain h p (xs @ ys) tl_addr"
  by (induction xs arbitrary: p) (auto split: option.splits)

lemma chain_delete:
  "chain h p xs tl_addr \<Longrightarrow> a < p \<Longrightarrow> chain (h(a := None)) p xs tl_addr"
  by (induction xs arbitrary: p) (auto split: option.splits)

lemma chain_link:
  assumes "chain h p xs tl_addr" "h tl_addr = Some n" "node_next n = None" "new \<notin> dom h"
  shows "chain (h(new \<mapsto> nn, tl_addr \<mapsto> n\<lparr>node_next := Some new\<rparr>)) p xs tl_addr"
  using assms(1)
proof (induction xs arbitrary: p)
  case Nil
  then show ?case by simp
next
  case (Cons x xs)
  from Cons.prems obtain np p' np' where s: "h p = Some np" "node_next np = Some p'" "p < p'"
    "h p' = Some np'" "node_data np' = x" "chain h p' xs tl_addr"
    by (auto split: option.splits)
  from s(1,2) assms(2,3) have "p \<noteq> tl_addr" by auto
  moreover from s(1) assms(4) have "p \<noteq> new" by auto
  moreover from s(4) assms(4) have "p' \<noteq> new" by auto
  moreover note Cons.IH [OF s(6)]
  ultimately show ?case using s assms(2) by auto
qed

lemma queue_inv_init: "queue_inv (SPSCQueue dflt) []"
  by (simp add: queue_inv_def SPSCQueue_def)

lemma enqueue_inv:
  assumes "queue_inv q xs"
  shows "\<exists>q'. enqueue v q = Some (True, q') \<and> queue_inv q' (xs @ [v])"
proof -
  from assms obtain n where n: "q_nodes q (q_tail q) = Some n" "node_next n = None"
    by (auto simp: queue_inv_def split: option.splits)
  from assms have c: "q_cached_head q = q_head q" "q_cached_tail q = q_tail q"
    and ch: "chain (q_nodes q) (q_head q) xs (q_tail q)"
    and fr: "\<forall>a\<in>dom (q_nodes q). a < q_fresh q"
    by (simp_all add: queue_inv_def)
  define new where "new = q_fresh q"
  define h' where "h' = (q_nodes q)(new \<mapsto> \<lparr>node_next = None, node_data = v\<rparr>,
                                    q_tail q \<mapsto> n\<lparr>node_next := Some new\<rparr>)"
  define q' where "q' = q\<lparr>q_nodes := h', q_cached_tail := new, q_tail := new, q_fresh := Suc new\<rparr>"
  from fr have nin: "new \<notin> dom (q_nodes q)" by (auto simp: new_def)
  from n(1) fr have lt: "q_tail q < new" by (auto simp: new_def)
  have e: "enqueue v q = Some (True, q')"
    using n c by (simp add: enqueue_def Let_def q'_def h'_def new_def)
  have "chain h' (q_head q) xs (q_tail q)"
    unfolding h'_def by (rule chain_link [OF ch n nin])
  moreover have "chain h' (q_tail q) [v] new"
    using lt by (simp add: h'_def)
  ultimately have "chain h' (q_head q) (xs @ [v]) new" by (rule chain_append)
  moreover have "\<forall>a\<in>dom h'. a < Suc new"
    using fr lt by (auto simp: h'_def new_def less_Suc_eq)
  moreover have "h' new = Some \<lparr>node_next = None, node_data = v\<rparr>"
    using lt by (simp add: h'_def)
  ultimately have "queue_inv q' (xs @ [v])"
    using c by (simp add: queue_inv_def q'_def)
  with e show ?thesis by blast
qed

lemma dequeue_empty:
  assumes "queue_inv q []"
  shows "dequeue q = Some (None, q)"
  using assms by (auto simp: queue_inv_def dequeue_def split: option.splits)

lemma dequeue_inv:
  assumes "queue_inv q (x # xs)"
  shows "\<exists>q'. dequeue q = Some (Some x, q') \<and> queue_inv q' xs"
proof -
  from assms have c: "q_cached_head q = q_head q" "q_cached_tail q = q_tail q"
    and ch: "chain (q_nodes q) (q_head q) (x # xs) (q_tail q)"
    and fr: "\<forall>a\<in>dom (q_nodes q). a < q_fresh q"
    by (simp_all add: queue_inv_def)
  from assms obtain n where n: "q_nodes q (q_tail q) = Some n" "node_next n = None"
    by (auto simp: queue_inv_def split: option.splits)
  from ch obtain hn p' n' where s: "q_nodes q (q_head q) = Some hn" "node_next hn = Some p'"
    "q_head q < p'" "q_nodes q p' = Some n'" "node_data n' = x"
    "chain (q_nodes q) p' xs (q_tail q)"
    by (auto split: option.splits)
  define q' where "q' = q\<lparr>q_head := p', q_cached_head := p',
                          q_nodes := (q_nodes q)(q_head q := None)\<rparr>"
  have d: "dequeue q = Some (Some x, q')"
    using s c by (auto simp: dequeue_def dequeue_take_def q'_def)
  from chain_le [OF s(6)] s(3) have ne: "q_head q \<noteq> q_tail q" by simp
  from chain_delete [OF s(6) s(3)] n ne fr c
  have "queue_inv q' xs"
    by (auto simp: queue_inv_def q'_def)
  with d show ?thesis by blast
qed

lemma run_queue_refines:
  assumes "queue_inv q pending"
  shows "\<exists>q'. run_queue calls q = Some (fifo_spec calls pending, q') \<and>
              queue_inv q' (fifo_pending calls pending)"
  using assms
proof (induction calls arbitrary: q pending)
  case Nil
  then show ?case by simp
next
  case (Cons c calls)
  show ?case
  proof (cases c)
    case (Enqueue v)
    from enqueue_inv [OF Cons.prems, of v] obtain q1 where
      e: "enqueue v q = Some (True, q1)" "queue_inv q1 (pending @ [v])" by blast
    from Cons.IH [OF e(2)] e(1) Enqueue show ?thesis by auto
  next
    case Dequeue
    show ?thesis
    proof (cases pending)
      case Nil
      with Cons.prems have d: "dequeue q = Some (None, q)" by (simp add: dequeue_empty)
      from Cons.IH [of q "[]"] Cons.prems Nil d Dequeue show ?thesis by auto
    next
      case (Cons x rest)
      from dequeue_inv [of q x rest] Cons.prems Cons obtain q1 where
        d: "dequeue q = Some (Some x, q1)" "queue_inv q1 rest" by auto
      from \<open>\<And>q pending. queue_inv q pending \<Longrightarrow> _\<close> [OF d(2)] d(1) Dequeue Cons
      show ?thesis by auto
    qed
  qed
qed


lemma fifo_accounting:
  "pending @ enqueued calls = dequeued (fifo_spec calls pending) @ fifo_pending calls pending"
  by (induction calls pending rule: fifo_spec.induct) simp_all

lemma fifo_enqueue_true: "Enqueued False \<notin> set (fifo_spec calls pending)"
  by (induction calls pending rule: fifo_spec.induct) simp_all

lemma length_fifo_spec: "length (fifo_spec calls pending) = length calls"
  by (induction calls pending rule: fifo_spec.induct) simp_all

lemma fifo_spec_append:
  "fifo_spec (before @ after) pending =
     fifo_spec before pending @ fifo_spec after (fifo_pending before pending)"
  by (induction before pending rule: fifo_spec.induct) simp_all

lemma fifo_dequeue_none:
  "fifo_spec (before @ Dequeue # after) [] ! length before = Dequeued None \<longleftrightarrow>
     dequeued (fifo_spec before []) = enqueued before"
proof -
  have "fifo_spec (before @ Dequeue # after) [] ! length before =
          hd (fifo_spec (Dequeue # after) (fifo_pending before []))"
    by (cases "fifo_pending before []")
       (simp_all add: fifo_spec_append nth_append length_fifo_spec)
  also have "\<dots> = Dequeued None \<longleftrightarrow> fifo_pending before [] = []"
    by (cases "fifo_pending before []") simp_all
  also have "\<dots> \<longleftrightarrow> dequeued (fifo_spec before []) = enqueued before"
    using fifo_accounting [of "[]" before] by auto
  finally show ?thesis .
qed

text \<open>
  Claim C8. For any sequence of \<open>enqueue\<close> and \<open>dequeue\<close> calls on a new queue, run one
  after the other: every call returns (no node is used after its \<open>delete\<close>), and the
  returns are those of the specification's queue; every \<open>enqueue\<close> returns true; the
  values that the \<open>dequeue\<close>s deliver, in order, are the first of the values enqueued, in
  the order of the \<open>enqueue\<close>s; and a \<open>dequeue\<close> returns nothing exactly when the values
  delivered before it are all the values enqueued before it.
\<close>

theorem spsc_queue_fifo:
  "\<exists>rs q'. run_queue calls (SPSCQueue dflt) = Some (rs, q') \<and>
     rs = fifo_spec calls [] \<and>
     Enqueued False \<notin> set rs \<and>
     take (length (dequeued rs)) (enqueued calls) = dequeued rs \<and>
     (\<forall>before after. calls = before @ Dequeue # after \<longrightarrow>
        (rs ! length before = Dequeued None \<longleftrightarrow>
         dequeued (take (length before) rs) = enqueued before))"
proof -
  from run_queue_refines [OF queue_inv_init, of calls dflt]
  obtain q' where r: "run_queue calls (SPSCQueue dflt) = Some (fifo_spec calls [], q')"
    by blast
  have p: "take (length (dequeued (fifo_spec calls []))) (enqueued calls) =
             dequeued (fifo_spec calls [])"
    using fifo_accounting [of "[]" calls] by simp
  have n: "fifo_spec calls [] ! length before = Dequeued None \<longleftrightarrow>
             dequeued (take (length before) (fifo_spec calls [])) = enqueued before"
    if "calls = before @ Dequeue # after" for before after
  proof -
    have "take (length before) (fifo_spec calls []) = fifo_spec before []"
      by (simp add: that fifo_spec_append length_fifo_spec)
    with fifo_dequeue_none [of before after] that show ?thesis by simp
  qed
  from r p n fifo_enqueue_true [of calls "[]"] show ?thesis by blast
qed

theorem spsc_queue_fifo_witness:
  "map_option fst
     (run_queue [Enqueue 1, Enqueue 2, Dequeue, Dequeue, Dequeue, Enqueue 3, Dequeue]
        (SPSCQueue (0::nat))) =
   Some [Enqueued True, Enqueued True, Dequeued (Some 1), Dequeued (Some 2), Dequeued None,
         Enqueued True, Dequeued (Some 3)]"
proof -
  from spsc_queue_fifo
    [of "[Enqueue 1, Enqueue 2, Dequeue, Dequeue, Dequeue, Enqueue 3, Dequeue]" "0::nat"]
  obtain rs q' where
    "run_queue [Enqueue 1, Enqueue 2, Dequeue, Dequeue, Dequeue, Enqueue 3, Dequeue]
       (SPSCQueue (0::nat)) = Some (rs, q')"
    "rs = fifo_spec [Enqueue 1, Enqueue 2, Dequeue, Dequeue, Dequeue, Enqueue 3, Dequeue] []"
    by blast
  then show ?thesis by simp
qed

section \<open>The profit of an arbitrage opportunity\<close>

subsection \<open>Rounding to double\<close>

text \<open>Rounding to an integer moves a number by at most one half.\<close>

lemma round_even_error: "\<bar>of_int (round_even x) - x\<bar> \<le> 1 / 2"
proof -
  have "of_int \<lfloor>x\<rfloor> \<le> x" "x < of_int \<lfloor>x\<rfloor> + 1" by linarith+
  then show ?thesis by (auto simp add: round_even_def Let_def)
qed

text \<open>The bit length of a positive integer brackets it between two powers of two.\<close>

lemma bitlen_pos_bounds:
  assumes "1 \<le> n"
  shows "1 \<le> bitlen n" and "(2::real) powi (bitlen n - 1) \<le> of_int n"
    and "real_of_int n + 1 \<le> 2 powi (bitlen n)"
proof -
  have b: "2 ^ nat (bitlen n - 1) \<le> n" "n < 2 ^ nat (bitlen n)"
    using bitlen_bounds [of n] assms by auto
  show k: "1 \<le> bitlen n" using assms by (simp add: bitlen_alt_def)
  have "real_of_int (2 ^ nat (bitlen n - 1)) \<le> real_of_int n"
    using b(1) by (simp only: of_int_le_iff)
  then show "(2::real) powi (bitlen n - 1) \<le> of_int n"
    using k by (simp add: power_int_def)
  have "n + 1 \<le> 2 ^ nat (bitlen n)" using b(2) by simp
  then have "real_of_int (n + 1) \<le> real_of_int (2 ^ nat (bitlen n))"
    by (simp only: of_int_le_iff)
  then show "real_of_int n + 1 \<le> 2 powi (bitlen n)"
    using k by (simp add: power_int_def)
qed

text \<open>
  \<open>exponent\<close> is the binary exponent: it is the power of two at or below a positive number,
  that is \<open>\<lfloor>log 2 x\<rfloor>\<close>.
\<close>

lemma exponent_bounds:
  assumes "0 < x"
  shows "2 powi (exponent x) \<le> x" and "x < 2 powi (exponent x + 1)"
proof -
  have "2 powi (exponent x) \<le> x \<and> x < 2 powi (exponent x + 1)"
  proof (cases "1 \<le> x")
    case True
    define n where "n = \<lfloor>x\<rfloor>"
    have n1: "1 \<le> n" using True by (simp add: n_def)
    have e: "exponent x = bitlen n - 1" using True by (simp add: exponent_def n_def)
    have "of_int n \<le> x" "x < of_int n + 1" by (simp_all add: n_def)
    with bitlen_pos_bounds(2,3) [OF n1] show ?thesis by (simp add: e)
  next
    case False
    define y where "y = 1 / x"
    define m where "m = \<lceil>y\<rceil> - 1"
    have y1: "1 < y" using False assms by (simp add: y_def)
    have m1: "1 \<le> m" using y1 by (simp add: m_def)
    have my: "of_int m < y" "y \<le> of_int m + 1" by (simp_all add: m_def) linarith
    have e: "exponent x = - bitlen m" using False by (simp add: exponent_def m_def y_def)
    have x: "1 / y = x" using assms by (simp add: y_def)
    have p: "(2::real) powi (- bitlen m) = 1 / 2 powi (bitlen m)"
      by (simp add: power_int_minus field_simps)
    have q: "(2::real) powi (- bitlen m + 1) = 1 / 2 powi (bitlen m - 1)"
      using power_int_minus [of "2::real" "bitlen m - 1"] by (simp add: field_simps)
    have ypos: "0 < y" using y1 by simp
    have "y \<le> 2 powi (bitlen m)" using my(2) bitlen_pos_bounds(3) [OF m1] by linarith
    then have a: "1 / 2 powi (bitlen m) \<le> 1 / y"
      using ypos by (simp add: frac_le)
    have "2 powi (bitlen m - 1) < y" using my(1) bitlen_pos_bounds(2) [OF m1] by linarith
    then have b: "1 / y < 1 / 2 powi (bitlen m - 1)"
      by (simp add: frac_less2)
    show ?thesis using a b unfolding e p q x by simp
  qed
  then show "2 powi (exponent x) \<le> x" and "x < 2 powi (exponent x + 1)" by simp_all
qed

lemma exponent_floor_log:
  assumes "0 < x"
  shows "exponent x = \<lfloor>log 2 x\<rfloor>"
proof -
  have "2 powr real_of_int (exponent x) \<le> x \<and> x < 2 powr real_of_int (exponent x + 1)"
    using exponent_bounds [OF assms] by (simp only: powr_real_of_int' [of 2, simplified])
  then show ?thesis
    using floor_log_eq_powr_iff [of x 2 "exponent x"] assms by simp
qed

lemma powi_less_imp_less:
  assumes "(2::real) powi a < 2 powi b"
  shows "a < b"
proof (rule ccontr)
  assume "\<not> a < b"
  then have "(2::real) powi b \<le> 2 powi a" by (intro power_int_increasing) simp_all
  with assms show False by simp
qed

text \<open>
  In the range of the normal numbers the rounding is finite and changes its argument by at
  most the fraction \<open>2 ^ -53\<close> of it.
\<close>

lemma binary64_normal:
  assumes lo: "2 powi (- 1022) \<le> x" and hi: "x \<le> 2 powi 1023"
  shows "\<exists>y. binary64 x = Some y \<and> \<bar>y - x\<bar> \<le> x / 2 ^ 53"
proof -
  have x0: "0 < x" using lo by (rule less_le_trans [rotated]) simp
  define e where "e = exponent x"
  define ulp :: real where "ulp = 2 powi (e - 52)"
  define r where "r = round_even (x / ulp)"
  have eb: "2 powi e \<le> x" "x < 2 powi (e + 1)"
    using exponent_bounds [OF x0] by (simp_all add: e_def)
  have "(2::real) powi (- 1022) < 2 powi (e + 1)" using lo eb(2) by linarith
  then have "- 1022 < e + 1" by (rule powi_less_imp_less)
  then have e_lo: "- 1022 \<le> e" by simp
  have ulp0: "0 < ulp" by (simp add: ulp_def)
  have "\<bar>of_int r - x / ulp\<bar> \<le> 1 / 2" unfolding r_def by (rule round_even_error)
  then have "\<bar>of_int r - x / ulp\<bar> * ulp \<le> 1 / 2 * ulp"
    using ulp0 by (simp only: mult_le_cancel_right_pos)
  moreover have "\<bar>of_int r - x / ulp\<bar> * ulp = \<bar>of_int r * ulp - x\<bar>"
  proof -
    have "of_int r * ulp - x = (of_int r - x / ulp) * ulp"
      using ulp0 by (simp add: field_simps)
    then show ?thesis using ulp0 by (simp add: abs_mult)
  qed
  moreover have "1 / 2 * ulp = 2 powi e / 2 ^ 53"
    by (simp add: ulp_def power_int_diff)
  ultimately have err: "\<bar>of_int r * ulp - x\<bar> \<le> 2 powi e / 2 ^ 53" by simp
  also have "\<dots> \<le> x / 2 ^ 53" using eb(1) by (simp add: divide_right_mono)
  finally have err': "\<bar>of_int r * ulp - x\<bar> \<le> x / 2 ^ 53" .
  have "\<bar>of_int r * ulp\<bar> \<le> x + x / 2 ^ 53" using err' x0 by linarith
  also have "\<dots> \<le> 2 powi 1023 + 2 powi 1023 / 2 ^ 53"
    using hi by (intro add_mono divide_right_mono) simp_all
  also have "\<dots> < 2 powi 1024" by simp
  finally have fin: "\<bar>of_int r * ulp\<bar> < 2 powi 1024" .
  have "binary64 x = Some (of_int r * ulp)"
    using x0 e_lo fin
    by (simp add: binary64_def Let_def e_def [symmetric] ulp_def [symmetric]
        r_def [symmetric] max_absorb1)
  with err' show ?thesis by simp
qed

lemma binary64_mid:
  assumes "1 / 2 ^ 100 \<le> x" and "x \<le> 2 ^ 100"
  shows "\<exists>y. binary64 x = Some y \<and> x * (1 - 1 / 2 ^ 53) \<le> y \<and> y \<le> x * (1 + 1 / 2 ^ 53)"
proof -
  have "(2::real) powi (- 1022) \<le> 1 / 2 ^ 100" by simp
  then have lo: "2 powi (- 1022) \<le> x" using assms(1) by (rule order_trans)
  have "(2::real) ^ 100 \<le> 2 powi 1023" by simp
  with assms(2) have hi: "x \<le> 2 powi 1023" by (rule order_trans)
  from binary64_normal [OF lo hi] obtain y
    where y: "binary64 x = Some y" "\<bar>y - x\<bar> \<le> x / 2 ^ 53" by blast
  have e: "x * (1 - 1 / 2 ^ 53) = x - x / 2 ^ 53" "x * (1 + 1 / 2 ^ 53) = x + x / 2 ^ 53"
    by (simp_all add: algebra_simps)
  from y(2) have "x - x / 2 ^ 53 \<le> y" "y \<le> x + x / 2 ^ 53" by linarith+
  with y(1) show ?thesis by (simp only: e) blast
qed

text \<open>
  With a positive ask strictly below the bid, the difference \<open>bid - ask\<close> does not overflow
  in \<open>int64_t\<close>.
\<close>

lemma sint_sub_crossed:
  fixes bid ask :: "64 word"
  assumes "0 < sint ask" and "sint ask < sint bid"
  shows "sint (bid - ask) = sint bid - sint ask"
proof -
  have "sint bid < 2 ^ 63" using sint_lt [of bid] by simp
  with assms have "- (2 ^ 63) \<le> sint bid - sint ask" "sint bid - sint ask < 2 ^ 63" by simp_all
  then show ?thesis by (simp add: sint_word_ariths signed_take_bit_int_eq_self)
qed

subsection \<open>The accuracy of the rounded expression\<close>

text \<open>
  Four roundings enter the result: of the difference, of the divisor, of the quotient and
  of the product. Each changes its argument by a factor between \<open>l = 1 - 2 ^ -53\<close> and
  \<open>h = 1 + 2 ^ -53\<close>.
\<close>

lemma rounding_chain:
  fixes d p D P Q V l h :: real
  assumes pos: "0 < d" "0 < p" "0 < l" "0 < h"
    and D: "d * l \<le> D" "D \<le> d * h"
    and P: "p * l \<le> P" "P \<le> p * h"
    and Q: "D / P * l \<le> Q" "Q \<le> D / P * h"
    and V: "Q * 10000 * l \<le> V" "V \<le> Q * 10000 * h"
  shows "d / p * 10000 * (l ^ 3 / h) \<le> V" and "V \<le> d / p * 10000 * (h ^ 3 / l)"
proof -
  have "0 < d * l" "0 < p * l" "0 < d * h" "0 < p * h" using pos by simp_all
  then have D0: "0 < D" and P0: "0 < P" using D(1) P(1) by linarith+
  have q1: "D / P \<le> (d * h) / (p * l)"
    using D0 D(2) \<open>0 < p * l\<close> P(1) by (intro frac_le) simp_all
  have q2: "(d * l) / (p * h) \<le> D / P"
    using \<open>0 < d * l\<close> D(1) P0 P(2) by (intro frac_le) simp_all
  have "V \<le> Q * 10000 * h" by fact
  also have "\<dots> \<le> (D / P * h) * 10000 * h"
    using Q(2) pos(4) by (intro mult_right_mono) simp_all
  also have "\<dots> \<le> ((d * h) / (p * l) * h) * 10000 * h"
    using q1 pos(4) by (intro mult_right_mono) simp_all
  also have "\<dots> = d / p * 10000 * (h ^ 3 / l)"
    using pos by (simp add: field_simps power3_eq_cube)
  finally show "V \<le> d / p * 10000 * (h ^ 3 / l)" .
  have "d / p * 10000 * (l ^ 3 / h) = ((d * l) / (p * h) * l) * 10000 * l"
    using pos by (simp add: field_simps power3_eq_cube)
  also have "\<dots> \<le> (D / P * l) * 10000 * l"
    using q2 pos(3) by (intro mult_right_mono) simp_all
  also have "\<dots> \<le> Q * 10000 * l"
    using Q(1) pos(3) by (intro mult_right_mono) simp_all
  also have "\<dots> \<le> V" by fact
  finally show "d / p * 10000 * (l ^ 3 / h) \<le> V" .
qed

lemma rounding_factors:
  "(1 + 1 / 2 ^ 53) ^ 3 / (1 - 1 / 2 ^ 53) \<le> (1 + 1 / 2 ^ 50 :: real)"
  "(1 - 1 / 2 ^ 50 :: real) \<le> (1 - 1 / 2 ^ 53) ^ 3 / (1 + 1 / 2 ^ 53)"
  by (simp_all add: power_divide)

text \<open>
  For prices \<open>0 < P_buy < P_sell < 2 ^ 63\<close> every intermediate result is a normal number, so
  the expression evaluated in \<open>double\<close> is finite, positive and within the fraction
  \<open>2 ^ -50\<close> of the exact value.
\<close>

lemma basis_points_double_accurate:
  fixes s b :: int
  assumes b0: "0 < b" and bs: "b < s" and s63: "s < 2 ^ 63"
  shows "\<exists>v. basis_points_double s b = Some v \<and> 0 < v
           \<and> \<bar>v - basis_points s b\<bar> \<le> basis_points s b / 2 ^ 50"
proof -
  define d :: real where "d = of_int (s - b)"
  define p :: real where "p = of_int b"
  define l :: real where "l = 1 - 1 / 2 ^ 53"
  define h :: real where "h = 1 + 1 / 2 ^ 53"
  have lh: "1 / 2 \<le> l" "0 < l" "0 < h" "h \<le> 2" by (simp_all add: l_def h_def)
  have "1 \<le> s - b" "s - b \<le> 2 ^ 63" "1 \<le> b" "b \<le> 2 ^ 63" using assms by simp_all
  then have "real_of_int 1 \<le> of_int (s - b)" "real_of_int (s - b) \<le> of_int (2 ^ 63)"
    "real_of_int 1 \<le> of_int b" "real_of_int b \<le> of_int (2 ^ 63)"
    by (simp_all only: of_int_le_iff)
  then have d: "1 \<le> d" "d \<le> 2 ^ 63" and p: "1 \<le> p" "p \<le> 2 ^ 63"
    by (simp_all add: d_def p_def)
  have "1 / 2 ^ 100 \<le> d" "d \<le> 2 ^ 100" "1 / 2 ^ 100 \<le> p" "p \<le> 2 ^ 100"
    using d p by simp_all
  from binary64_mid [OF this(1,2)] binary64_mid [OF this(3,4)] obtain D P
    where D: "binary64 d = Some D" "d * l \<le> D" "D \<le> d * h"
      and P: "binary64 p = Some P" "p * l \<le> P" "P \<le> p * h"
    unfolding l_def h_def by blast
  have "1 * (1 / 2) \<le> d * l" "1 * (1 / 2) \<le> p * l" "d * h \<le> 2 ^ 63 * 2" "p * h \<le> 2 ^ 63 * 2"
    using d p lh by (intro mult_mono; simp)+
  then have Dr: "1 / 2 \<le> D" "D \<le> 2 ^ 64" and Pr: "1 / 2 \<le> P" "P \<le> 2 ^ 64"
    using D(2,3) P(2,3) by simp_all
  have "(1 / 2) / 2 ^ 64 \<le> D / P" "D / P \<le> 2 ^ 64 / (1 / 2)"
    using Dr Pr by (intro frac_le; simp)+
  then have DPr: "1 / 2 ^ 65 \<le> D / P" "D / P \<le> 2 ^ 65" by simp_all
  have "(1::real) / 2 ^ 100 \<le> 1 / 2 ^ 65" "(2::real) ^ 65 \<le> 2 ^ 100" by simp_all
  with DPr have "1 / 2 ^ 100 \<le> D / P" "D / P \<le> 2 ^ 100" by linarith+
  from binary64_mid [OF this] obtain Q
    where Q: "binary64 (D / P) = Some Q" "D / P * l \<le> Q" "Q \<le> D / P * h"
    unfolding l_def h_def by blast
  have DP0: "0 \<le> D / P" using Dr Pr by simp
  have "1 / 2 ^ 65 * (1 / 2) \<le> D / P * l"
    by (rule mult_mono [OF DPr(1) lh(1) DP0]) simp
  moreover have "D / P * h \<le> 2 ^ 65 * 2"
    by (rule mult_mono [OF DPr(2) lh(4)]) (use lh(3) in simp_all)
  moreover have "(1::real) / 2 ^ 65 * (1 / 2) = 1 / 2 ^ 66" "(2::real) ^ 65 * 2 = 2 ^ 66"
    by simp_all
  ultimately have Qr: "1 / 2 ^ 66 \<le> Q" "Q \<le> 2 ^ 66" using Q(2,3) by linarith+
  have "(1::real) / 2 ^ 100 \<le> 1 / 2 ^ 66 * 10000" "(2::real) ^ 66 * 10000 \<le> 2 ^ 100"
    by simp_all
  with Qr have "1 / 2 ^ 100 \<le> Q * 10000" "Q * 10000 \<le> 2 ^ 100" by linarith+
  from binary64_mid [OF this] obtain V
    where V: "binary64 (Q * 10000) = Some V" "Q * 10000 * l \<le> V" "V \<le> Q * 10000 * h"
    unfolding l_def h_def by blast
  have P0: "P \<noteq> 0" using Pr by simp
  have val: "basis_points_double s b = Some V"
    using D(1) P(1) Q(1) V(1) P0
    by (simp add: basis_points_double_def double_div_def double_mul_def d_def p_def)
  define E where "E = d / p * 10000"
  have E0: "0 < E" using d p by (simp add: E_def)
  have "0 < d" "0 < p" using d p by simp_all
  from rounding_chain [OF this lh(2,3) D(2,3) P(2,3) Q(2,3) V(2,3)]
  have "E * (l ^ 3 / h) \<le> V" "V \<le> E * (h ^ 3 / l)" by (simp_all only: E_def)
  moreover have "E * (1 - 1 / 2 ^ 50) \<le> E * (l ^ 3 / h)" "E * (h ^ 3 / l) \<le> E * (1 + 1 / 2 ^ 50)"
    using E0 rounding_factors unfolding l_def h_def by (intro mult_left_mono; simp)+
  ultimately have "E * (1 - 1 / 2 ^ 50) \<le> V" "V \<le> E * (1 + 1 / 2 ^ 50)" by linarith+
  moreover have "E * (1 - 1 / 2 ^ 50) = E - E / 2 ^ 50" "E * (1 + 1 / 2 ^ 50) = E + E / 2 ^ 50"
    by (simp_all add: algebra_simps)
  ultimately have b: "E - E / 2 ^ 50 \<le> V" "V \<le> E + E / 2 ^ 50" by simp_all
  then have "\<bar>V - E\<bar> \<le> E / 2 ^ 50" by linarith
  moreover have "0 < V" using b(1) E0 by (simp add: field_simps) 
  moreover have "basis_points s b = E" by (simp add: basis_points_def E_def d_def p_def)
  ultimately show ?thesis using val by simp
qed

subsection \<open>The three cases of \<open>profit_basis_points\<close>\<close>

text \<open>The branch taken, by the two tests of the source.\<close>

lemma profit_basis_points_buy_a:
  assumes "crossed (feed_b_bid opp) (feed_a_ask opp)"
  shows "profit_basis_points opp
           = basis_points_double (sint (feed_b_bid opp)) (sint (feed_a_ask opp))"
  using assms
  by (simp add: profit_basis_points_def basis_points_double_def crossed_def
      double_of_int64_def sint_sub_crossed)

lemma profit_basis_points_buy_b:
  assumes "\<not> crossed (feed_b_bid opp) (feed_a_ask opp)"
    and "crossed (feed_a_bid opp) (feed_b_ask opp)"
  shows "profit_basis_points opp
           = basis_points_double (sint (feed_a_bid opp)) (sint (feed_b_ask opp))"
  using assms
  by (auto simp add: profit_basis_points_def basis_points_double_def crossed_def
      double_of_int64_def sint_sub_crossed)

lemma profit_basis_points_uncrossed:
  assumes "\<not> crossed (feed_b_bid opp) (feed_a_ask opp)"
    and "\<not> crossed (feed_a_bid opp) (feed_b_ask opp)"
  shows "profit_basis_points opp = Some 0"
  using assms by (auto simp add: profit_basis_points_def crossed_def)

lemma crossed_accurate:
  assumes "crossed bid ask"
  shows "\<exists>v. basis_points_double (sint bid) (sint ask) = Some v \<and> 0 < v
           \<and> \<bar>v - basis_points (sint bid) (sint ask)\<bar>
               \<le> basis_points (sint bid) (sint ask) / 2 ^ 50"
proof -
  have "sint bid < 2 ^ 63" using sint_lt [of bid] by simp
  then show ?thesis
    using assms by (intro basis_points_double_accurate) (simp_all add: crossed_def)
qed

text \<open>
  Claim C7. When the bid of feed B is strictly above the ask of feed A and both are
  positive (the feeds may be crossed the other way too), \<open>profit_basis_points\<close> is
  \<open>((P_sell - P_buy) / P_buy) * 10000\<close> with \<open>P_buy\<close> the ask of A and \<open>P_sell\<close> the bid
  of B, evaluated in \<open>double\<close> as the source does: a finite and positive number, within the
  fraction \<open>2 ^ -50\<close> of the exact value of the expression. When that test fails and the
  bid of A is strictly above the ask of B, both positive, the same holds with \<open>P_buy\<close>
  the ask of B and \<open>P_sell\<close> the bid of A. In every other case the profit is 0. Hence
  \<open>is_profitable\<close> holds exactly when the feeds are crossed one way or the other, and an
  opportunity that is a disparity only has profit 0 and is not profitable. This holds of
  every opportunity, whatever its other fields, so of every one that \<open>check_arbitrage\<close>
  records with the prices of the two quotes.
\<close>

theorem profit_basis_points_crossed:
  "(crossed (feed_b_bid opp) (feed_a_ask opp) \<longrightarrow>
      (\<exists>v. profit_basis_points opp = Some v
         \<and> basis_points_double (sint (feed_b_bid opp)) (sint (feed_a_ask opp)) = Some v
         \<and> 0 < v
         \<and> \<bar>v - basis_points (sint (feed_b_bid opp)) (sint (feed_a_ask opp))\<bar>
             \<le> basis_points (sint (feed_b_bid opp)) (sint (feed_a_ask opp)) / 2 ^ 50))
   \<and> (\<not> crossed (feed_b_bid opp) (feed_a_ask opp) \<and> crossed (feed_a_bid opp) (feed_b_ask opp) \<longrightarrow>
      (\<exists>v. profit_basis_points opp = Some v
         \<and> basis_points_double (sint (feed_a_bid opp)) (sint (feed_b_ask opp)) = Some v
         \<and> 0 < v
         \<and> \<bar>v - basis_points (sint (feed_a_bid opp)) (sint (feed_b_ask opp))\<bar>
             \<le> basis_points (sint (feed_a_bid opp)) (sint (feed_b_ask opp)) / 2 ^ 50))
   \<and> (\<not> crossed (feed_b_bid opp) (feed_a_ask opp) \<and> \<not> crossed (feed_a_bid opp) (feed_b_ask opp) \<longrightarrow>
        profit_basis_points opp = Some 0)
   \<and> is_profitable opp
        = Some (crossed (feed_b_bid opp) (feed_a_ask opp) \<or> crossed (feed_a_bid opp) (feed_b_ask opp))
   \<and> (disparity_only opp \<longrightarrow>
        profit_basis_points opp = Some 0 \<and> is_profitable opp = Some False)"
proof -
  let ?ab = "crossed (feed_b_bid opp) (feed_a_ask opp)"
  let ?ba = "crossed (feed_a_bid opp) (feed_b_ask opp)"
  have a: "\<exists>v. profit_basis_points opp = Some v
         \<and> basis_points_double (sint (feed_b_bid opp)) (sint (feed_a_ask opp)) = Some v
         \<and> 0 < v
         \<and> \<bar>v - basis_points (sint (feed_b_bid opp)) (sint (feed_a_ask opp))\<bar>
             \<le> basis_points (sint (feed_b_bid opp)) (sint (feed_a_ask opp)) / 2 ^ 50"
    if "?ab"
    using crossed_accurate [OF that] profit_basis_points_buy_a [OF that] by simp
  have b: "\<exists>v. profit_basis_points opp = Some v
         \<and> basis_points_double (sint (feed_a_bid opp)) (sint (feed_b_ask opp)) = Some v
         \<and> 0 < v
         \<and> \<bar>v - basis_points (sint (feed_a_bid opp)) (sint (feed_b_ask opp))\<bar>
             \<le> basis_points (sint (feed_a_bid opp)) (sint (feed_b_ask opp)) / 2 ^ 50"
    if "\<not> ?ab" "?ba"
    using crossed_accurate [OF that(2)] profit_basis_points_buy_b [OF that] by simp
  have c: "profit_basis_points opp = Some 0" if "\<not> ?ab" "\<not> ?ba"
    using that by (rule profit_basis_points_uncrossed)
  have d: "is_profitable opp = Some (?ab \<or> ?ba)"
  proof (cases ?ab)
    case True
    with a show ?thesis by (auto simp add: is_profitable_def)
  next
    case False
    show ?thesis
    proof (cases ?ba)
      case True
      with b [OF False] False show ?thesis by (auto simp add: is_profitable_def)
    next
      case no: False
      with c [OF False] False show ?thesis by (simp add: is_profitable_def)
    qed
  qed
  have e: "profit_basis_points opp = Some 0 \<and> is_profitable opp = Some False"
    if "disparity_only opp"
    using that c d by (simp add: disparity_only_def)
  from a b c d e show ?thesis by blast
qed

theorem profit_basis_points_crossed_witness:
  "crossed (feed_b_bid opp_buy_a) (feed_a_ask opp_buy_a)
   \<and> (\<exists>v. profit_basis_points opp_buy_a = Some v \<and> 0 < v
          \<and> \<bar>v - 10000 / 1001\<bar> \<le> 10000 / 1001 / 2 ^ 50)
   \<and> is_profitable opp_buy_a = Some True
   \<and> crossed (feed_a_bid opp_buy_b) (feed_b_ask opp_buy_b)
   \<and> (\<exists>v. profit_basis_points opp_buy_b = Some v \<and> 0 < v
          \<and> \<bar>v - 10000 / 1001\<bar> \<le> 10000 / 1001 / 2 ^ 50)
   \<and> is_profitable opp_buy_b = Some True
   \<and> disparity_only opp_disparity
   \<and> profit_basis_points opp_disparity = Some 0
   \<and> is_profitable opp_disparity = Some False"
  using profit_basis_points_crossed [of opp_buy_a]
    profit_basis_points_crossed [of opp_buy_b]
    profit_basis_points_crossed [of opp_disparity]
  by (simp add: opp_buy_a_def opp_buy_b_def opp_disparity_def disparity_only_def
      crossed_def basis_points_def) blast

text \<open>
  Some roundings: of one tenth and one third, of two integers halfway between doubles,
  and those of the profit with feed A at 10000 / 10010 and feed B at 10020 / 10030, which
  is the double nearest to the product of 10000 and the double nearest to \<open>10 / 10010\<close>.
\<close>

lemma binary64_examples:
  "binary64 (1 / 10) = Some (3602879701896397 / 2 ^ 55)"
  "binary64 (1 / 3) = Some (6004799503160661 / 2 ^ 54)"
  "binary64 (2 ^ 53 + 1) = Some (2 ^ 53)"
  "binary64 (2 ^ 53 + 3) = Some (2 ^ 53 + 4)"
  "binary64 10 = Some 10"
  "binary64 10010 = Some 10010"
  "binary64 (10 / 10010) = Some (1151769734871975 / 2 ^ 60)"
  "binary64 (1151769734871975 / 2 ^ 60 * 10000) = Some (5623875658554565 / 2 ^ 49)"
  by (simp_all add: binary64_def exponent_def round_even_def Let_def compute_bitlen)

lemma opp_buy_a_value:
  "profit_basis_points opp_buy_a = Some (5623875658554565 / 2 ^ 49)"
  using binary64_examples
  by (simp add: opp_buy_a_def profit_basis_points_def double_of_int64_def double_div_def
      double_mul_def)

end
